theory Spec2Isabelle
  imports Complex_Main
begin

section \<open>Data model\<close>

text \<open>
  The simulation of \<^verbatim>\<open>src/game.js\<close>. JavaScript numbers are modelled exactly: integer-valued
  quantities (row and column indices, score, counters) as \<open>int\<close>, coordinates, velocities and
  times as \<open>real\<close>. A colour is the CSS string of the palette.

  A grid cell occupant is the object literal
  \<^verbatim>\<open>{ row, c, x, y, color, removing }\<close>; the grid \<^verbatim>\<open>state.grid\<close> is an array of rows, each
  row an array of such objects in insertion order.
\<close>

type_synonym color = string

record bubble =
  b_row :: int
  b_c :: int
  b_x :: real
  b_y :: real
  b_color :: color
  b_removing :: bool

type_synonym grid = "bubble list list"

text \<open>The string key \<^verbatim>\<open>b.row + ':' + b.c\<close> of the traversals, as the pair it encodes.\<close>

type_synonym key = "int \<times> int"

definition key :: "bubble \<Rightarrow> key" where
  "key b = (b_row b, b_c b)"

subsection \<open>CONFIG\<close>

definition bubbleRadius :: real where "bubbleRadius = 16"
definition rowCount :: nat where "rowCount = 8"
definition colors :: "color list" where
  "colors = [''#60a5fa'', ''#f472b6'', ''#facc15'', ''#34d399'', ''#a78bfa'', ''#f87171'']"
definition launchSpeed :: real where "launchSpeed = 720"
definition friction :: real where "friction = 988 / 1000"
definition minCluster :: nat where "minCluster = 3"
definition spawnRowInterval :: real where "spawnRowInterval = 14000"
definition maxBounce :: int where "maxBounce = 8"
definition rowHeightFactor :: real where "rowHeightFactor = 162 / 100"
definition popDuration :: real where "popDuration = 260"
definition fallGravity :: real where "fallGravity = 1200"
definition fallJitter :: real where "fallJitter = 110"
definition particleCountPerBubble :: nat where "particleCountPerBubble = 7"
definition particleLife :: real where "particleLife = 420"
definition projectileTrail :: bool where "projectileTrail = True"
definition aimDamping :: real where "aimDamping = 18 / 100"

subsection \<open>Hex grid model\<close>

text \<open>The parity-dependent offset table of \<^verbatim>\<open>neighbors\<close>, as (row delta, column delta).\<close>

definition deltas :: "int \<Rightarrow> (int \<times> int) list" where
  "deltas r =
     (if r mod 2 = 0
      then [(0, -1), (0, 1), (-1, 0), (-1, 1), (1, 0), (1, 1)]
      else [(0, -1), (0, 1), (-1, -1), (-1, 0), (1, -1), (1, 0)])"

text \<open>
  \<^verbatim>\<open>neighbors(b)\<close>: an index outside the row array reads \<^verbatim>\<open>undefined\<close> and returns the
  empty result; each delta whose row is out of range is skipped; \<^verbatim>\<open>arr.find\<close> yields the
  first bubble of the row with the wanted column, if any.
\<close>

definition neighbors :: "grid \<Rightarrow> bubble \<Rightarrow> bubble list" where
  "neighbors g b =
     (if b_row b < 0 \<or> int (length g) \<le> b_row b then []
      else List.map_filter
             (\<lambda>(dr, dc).
                let nr = b_row b + dr; nc = b_c b + dc
                in if nr < 0 \<or> int (length g) \<le> nr then None
                   else find (\<lambda>x. b_c x = nc) (g ! nat nr))
             (deltas (b_row b)))"

text \<open>
  The grid invariant of the data model: every bubble's stored row is the index of the row
  that holds it, and no two bubbles of a row share a column.
\<close>

fun wf_rows :: "nat \<Rightarrow> grid \<Rightarrow> bool" where
  "wf_rows i [] = True"
| "wf_rows i (r # rs) =
     ((\<forall>b \<in> set r. b_row b = int i) \<and> distinct (map b_c r) \<and> wf_rows (Suc i) rs)"

definition wf_grid :: "grid \<Rightarrow> bool" where
  "wf_grid g = wf_rows 0 g"

text \<open>The occupied cells of a grid.\<close>

definition cells :: "grid \<Rightarrow> bubble set" where
  "cells g = set (concat g)"

subsection \<open>Facts needed to define the traversals\<close>

lemma set_map_filter_eq: "set (List.map_filter f xs) = {y. \<exists>x \<in> set xs. f x = Some y}"
  by (induction xs) (auto simp: List.map_filter_def)

lemma find_SomeD: "find P xs = Some x \<Longrightarrow> x \<in> set xs \<and> P x"
  by (auto simp: find_Some_iff)

lemma neighbors_iff:
  "n \<in> set (neighbors g b) \<longleftrightarrow>
     (0 \<le> b_row b \<and> b_row b < int (length g) \<and>
      (\<exists>dr dc. (dr, dc) \<in> set (deltas (b_row b)) \<and>
         0 \<le> b_row b + dr \<and> b_row b + dr < int (length g) \<and>
         find (\<lambda>x. b_c x = b_c b + dc) (g ! nat (b_row b + dr)) = Some n))"
  by (force simp: neighbors_def set_map_filter_eq Let_def split: if_splits)

lemma cells_iff: "n \<in> cells g \<longleftrightarrow> (\<exists>j < length g. n \<in> set (g ! j))"
  unfolding cells_def set_concat by (metis UN_iff in_set_conv_nth)

lemma neighbors_cells: "set (neighbors g b) \<subseteq> cells g"
proof
  fix n assume "n \<in> set (neighbors g b)"
  then obtain dr dc where "0 \<le> b_row b + dr" "b_row b + dr < int (length g)"
    "find (\<lambda>x. b_c x = b_c b + dc) (g ! nat (b_row b + dr)) = Some n"
    by (auto simp: neighbors_iff)
  then have "nat (b_row b + dr) < length g" "n \<in> set (g ! nat (b_row b + dr))"
    by (auto dest: find_SomeD)
  then show "n \<in> cells g" by (auto simp: cells_iff)
qed

lemma finite_cells: "finite (cells g)"
  by (simp add: cells_def)

text \<open>The keys still to be visited: those of the grid and of the pending calls, less the visited.\<close>

definition todo :: "grid \<Rightarrow> key set \<Rightarrow> bubble list \<Rightarrow> key set" where
  "todo g vis stack = (key ` cells g \<union> key ` set stack) - vis"

lemma finite_todo: "finite (todo g vis stack)"
  by (simp add: todo_def finite_cells)

lemma todo_visited: "key b \<in> vis \<Longrightarrow> todo g vis (b # stack) = todo g vis stack"
  by (auto simp: todo_def)

lemma todo_expand:
  assumes "key b \<notin> vis"
  shows "card (todo g (insert (key b) vis) (neighbors g b @ stack)) < card (todo g vis (b # stack))"
proof (rule psubset_card_mono[OF finite_todo])
  have "key b \<in> todo g vis (b # stack)" using assms by (simp add: todo_def)
  moreover have "key b \<notin> todo g (insert (key b) vis) (neighbors g b @ stack)"
    by (simp add: todo_def)
  moreover have "todo g (insert (key b) vis) (neighbors g b @ stack) \<subseteq> todo g vis (b # stack)"
    using neighbors_cells[of g b] by (auto simp: todo_def)
  ultimately show "todo g (insert (key b) vis) (neighbors g b @ stack) \<subset> todo g vis (b # stack)"
    by blast
qed

lemma todo_skip:
  assumes "key b \<notin> vis"
  shows "card (todo g (insert (key b) vis) stack) < card (todo g vis (b # stack))"
proof (rule psubset_card_mono[OF finite_todo])
  have "key b \<in> todo g vis (b # stack)" using assms by (simp add: todo_def)
  moreover have "key b \<notin> todo g (insert (key b) vis) stack"
    by (simp add: todo_def)
  moreover have "todo g (insert (key b) vis) stack \<subseteq> todo g vis (b # stack)"
    by (auto simp: todo_def)
  ultimately show "todo g (insert (key b) vis) stack \<subset> todo g vis (b # stack)"
    by blast
qed

lemma todo_mono: "vis \<subseteq> vis' \<Longrightarrow> todo g vis' stack \<subseteq> todo g vis stack"
  by (auto simp: todo_def)

lemma todo_inner:
  assumes "key b \<notin> vis"
  shows "card (todo g (insert (key b) vis) (neighbors g b)) < card (todo g vis (b # bs))"
proof -
  have "card (todo g (insert (key b) vis) (neighbors g b))
      \<le> card (todo g (insert (key b) vis) (neighbors g b @ bs))"
    by (rule card_mono[OF finite_todo]) (auto simp: todo_def)
  also have "\<dots> < card (todo g vis (b # bs))"
    using assms by (rule todo_expand)
  finally show ?thesis .
qed

lemma todo_after:
  assumes "key b \<notin> vis" "insert (key b) vis \<subseteq> vis'"
  shows "card (todo g vis' bs) < card (todo g vis (b # bs))"
proof -
  have "card (todo g vis' bs) \<le> card (todo g (insert (key b) vis) bs)"
    using assms(2) by (intro card_mono[OF finite_todo] todo_mono)
  also have "\<dots> < card (todo g vis (b # bs))"
    using assms(1) by (rule todo_skip)
  finally show ?thesis .
qed

section \<open>Session state\<close>

record projectile =
  p_x :: real
  p_y :: real
  p_vx :: real
  p_vy :: real
  p_color :: color
  p_active :: bool
  p_bounces :: int
  p_born :: real

record shooter =
  s_x :: real
  s_y :: real
  s_angle :: real
  s_targetAngle :: real

record pop =
  pop_x :: real
  pop_y :: real
  pop_color :: color
  pop_start :: real

record falling_bubble =
  f_x :: real
  f_y :: real
  f_vx :: real
  f_vy :: real
  f_color :: color
  f_born :: real

record particle =
  pt_x :: real
  pt_y :: real
  pt_vx :: real
  pt_vy :: real
  pt_color :: color
  pt_born :: real
  pt_r :: real
  pt_alpha :: real

record trail_point =
  t_x :: real
  t_y :: real
  t_t :: real
  t_color :: color

text \<open>
  The fields of the global \<^verbatim>\<open>state\<close> object, followed by what the simulation keeps outside
  it: the global \<^verbatim>\<open>highScore\<close>, whether the overlay carries the class \<^verbatim>\<open>show\<close>, the list of
  \<^verbatim>\<open>endGame(win)\<close> calls made so far (the panels written into the overlay), and the
  number of \<^verbatim>\<open>Math.random()\<close> calls made so far.
\<close>

record state =
  grid :: grid
  projectiles :: "projectile list"
  shooter :: shooter
  nextColor :: "color option"
  score :: int
  shots :: int
  gameOver :: bool
  lastTime :: real
  spawnTimer :: real
  particles :: "particle list"
  popping :: "pop list"
  falling :: "falling_bubble list"
  trail :: "trail_point list"
  highScore :: int
  overlayShown :: bool
  endGames :: "bool list"
  draws :: nat

text \<open>
  What the page supplies: the canvas size (unsigned integers of the DOM) and the results of
  \<^verbatim>\<open>Math.random()\<close>, call by call, each in the interval from 0 (included) to 1 (excluded).
  The clock \<^verbatim>\<open>performance.now()\<close> is the parameter \<open>now\<close> of the operation that reads it.
\<close>

record env =
  canvas_width :: nat
  canvas_height :: nat
  math_random :: "nat \<Rightarrow> real"

definition rowHeight :: real where
  "rowHeight = bubbleRadius * rowHeightFactor"

definition perRow :: "env \<Rightarrow> int" where
  "perRow env = \<lfloor>real (canvas_width env) / (bubbleRadius * 2)\<rfloor>"

text \<open>\<^verbatim>\<open>pickColor()\<close> at the \<open>k\<close>-th call of \<^verbatim>\<open>Math.random()\<close>.\<close>

definition pickColor :: "env \<Rightarrow> nat \<Rightarrow> color" where
  "pickColor env k = colors ! nat \<lfloor>math_random env k * real (length colors)\<rfloor>"

definition updateHighScore :: "state \<Rightarrow> state" where
  "updateHighScore st = (if score st > highScore st then st\<lparr>highScore := score st\<rparr> else st)"

definition newParticle :: "env \<Rightarrow> real \<Rightarrow> real \<Rightarrow> real \<Rightarrow> color \<Rightarrow> bool \<Rightarrow> nat \<Rightarrow> particle" where
  "newParticle env now px py col isDrop k =
     (let ang = math_random env k * pi * 2;
          speed = (if isDrop then 60 else 140) * (4 / 10 + math_random env (k + 1) * (6 / 10))
      in \<lparr>pt_x = px, pt_y = py, pt_vx = cos ang * speed,
          pt_vy = sin ang * speed - (if isDrop then 0 else 40),
          pt_color = col, pt_born = now, pt_r = 3 + math_random env (k + 2) * 2, pt_alpha = 1\<rparr>)"

definition spawnParticles :: "env \<Rightarrow> real \<Rightarrow> real \<Rightarrow> real \<Rightarrow> color \<Rightarrow> bool \<Rightarrow> state \<Rightarrow> state" where
  "spawnParticles env now px py col isDrop st =
     st\<lparr>particles := particles st @
            map (\<lambda>i. newParticle env now px py col isDrop (draws st + 3 * i))
              [0 ..< particleCountPerBubble],
        draws := draws st + 3 * particleCountPerBubble\<rparr>"

section \<open>Connectivity engine\<close>

text \<open>
  The recursive closure \<^verbatim>\<open>dfs\<close> of \<^verbatim>\<open>clusterCheck\<close>. The function below is
  \<^verbatim>\<open>bs.forEach(dfs)\<close>: it runs \<^verbatim>\<open>dfs\<close> on each bubble of \<open>bs\<close> in turn, on the pair of the set
  \<^verbatim>\<open>visited\<close> and the array \<^verbatim>\<open>cluster\<close> (in push order) that the closure captures. A single
  call \<^verbatim>\<open>dfs(b)\<close> is the case of the one-element list.
\<close>

function clusterCheck_dfs ::
  "grid \<Rightarrow> color \<Rightarrow> key set \<times> bubble list \<Rightarrow> bubble list \<Rightarrow> key set \<times> bubble list" where
  "clusterCheck_dfs g tc acc [] = acc"
| "clusterCheck_dfs g tc acc (b # bs) =
     clusterCheck_dfs g tc
       (if key b \<in> fst acc then acc
        else if b_color b \<noteq> tc then (insert (key b) (fst acc), snd acc)
        else clusterCheck_dfs g tc (insert (key b) (fst acc), snd acc @ [b]) (neighbors g b))
       bs"
  by pat_completeness auto

text \<open>Where the traversal returns, \<^verbatim>\<open>visited\<close> has only grown; so it returns always.\<close>

lemma clusterCheck_dfs_grows:
  "clusterCheck_dfs_dom (g, tc, acc, bs) \<Longrightarrow> fst acc \<subseteq> fst (clusterCheck_dfs g tc acc bs)"
proof (induction g tc acc bs rule: clusterCheck_dfs.pinduct)
  case (1 g tc acc)
  then show ?case by (simp add: clusterCheck_dfs.psimps)
next
  case (2 g tc acc b bs)
  show ?case
  proof (cases "key b \<in> fst acc")
    case True
    with 2 show ?thesis by (simp add: clusterCheck_dfs.psimps)
  next
    case new: False
    show ?thesis
    proof (cases "b_color b \<noteq> tc")
      case True
      with new 2 show ?thesis by (auto simp: clusterCheck_dfs.psimps)
    next
      case False
      with new 2 show ?thesis by (auto simp: clusterCheck_dfs.psimps)
    qed
  qed
qed

termination clusterCheck_dfs
proof (relation "measures [\<lambda>(g, tc, acc, bs). card (todo g (fst acc) bs),
                            \<lambda>(g, tc, acc, bs). length bs]", goal_cases)
  case 1
  show ?case by simp
next
  case (2 g tc acc b bs)
  then show ?case by (simp add: todo_inner)
next
  case (3 g tc acc b bs)
  show ?case
  proof (cases "key b \<in> fst acc")
    case True
    then show ?thesis by (simp add: todo_visited)
  next
    case new: False
    show ?thesis
    proof (cases "b_color b \<noteq> tc")
      case True
      with new show ?thesis by (simp add: todo_skip)
    next
      case False
      with new 3 have "clusterCheck_dfs_dom
          (g, tc, (insert (key b) (fst acc), snd acc @ [b]), neighbors g b)"
        by simp
      then have "insert (key b) (fst acc)
          \<subseteq> fst (clusterCheck_dfs g tc (insert (key b) (fst acc), snd acc @ [b]) (neighbors g b))"
        using clusterCheck_dfs_grows by fastforce
      with new have "card (todo g (fst (clusterCheck_dfs g tc
          (insert (key b) (fst acc), snd acc @ [b]) (neighbors g b))) bs)
          < card (todo g (fst acc) (b # bs))"
        by (rule todo_after)
      with new False show ?thesis by simp
    qed
  qed
qed

text \<open>
  The same traversal with the pending calls kept as an explicit stack: the head of the stack
  is the next call, and the neighbours of an expanded bubble are called before the rest.
  The proofs below work on this form.
\<close>

function cluster_dfs :: "grid \<Rightarrow> color \<Rightarrow> key set \<Rightarrow> bubble list \<Rightarrow> bubble list \<Rightarrow> key set \<times> bubble list" where
  "cluster_dfs g tc vis cl [] = (vis, cl)"
| "cluster_dfs g tc vis cl (b # stack) =
     (if key b \<in> vis then cluster_dfs g tc vis cl stack
      else if b_color b \<noteq> tc then cluster_dfs g tc (insert (key b) vis) cl stack
      else cluster_dfs g tc (insert (key b) vis) (cl @ [b]) (neighbors g b @ stack))"
  by pat_completeness auto
termination
proof (relation "measures [\<lambda>(g, tc, vis, cl, stack). card (todo g vis stack),
                            \<lambda>(g, tc, vis, cl, stack). length stack]", goal_cases)
  case 1
  show ?case by simp
next
  case (2 b vis g tc cl stack)
  then show ?case by (simp add: todo_visited)
next
  case (3 b vis tc g cl stack)
  then show ?case by (simp add: todo_skip)
next
  case (4 b vis tc g cl stack)
  then show ?case by (simp add: todo_expand)
qed

lemma clusterCheck_dfs_append:
  "clusterCheck_dfs g tc acc (xs @ ys) = clusterCheck_dfs g tc (clusterCheck_dfs g tc acc xs) ys"
  by (induction xs arbitrary: acc) simp_all

lemma clusterCheck_dfs_worklist:
  "clusterCheck_dfs g tc (vis, cl) stack = cluster_dfs g tc vis cl stack"
  by (induction g tc vis cl stack rule: cluster_dfs.induct) (simp_all add: clusterCheck_dfs_append)

text \<open>
  Setting \<^verbatim>\<open>b.removing = true\<close> on an object of the grid. The objects of a grid are told
  apart by their (row, column) key, which is unique in a grid that satisfies \<open>wf_grid\<close>.
\<close>

definition markRemoving :: "key \<Rightarrow> grid \<Rightarrow> grid" where
  "markRemoving k g = map (map (\<lambda>b. if key b = k then b\<lparr>b_removing := True\<rparr> else b)) g"

text \<open>The body of the loop \<^verbatim>\<open>for (const b of cluster)\<close>.\<close>

definition popBubble :: "env \<Rightarrow> real \<Rightarrow> bubble \<Rightarrow> state \<Rightarrow> state" where
  "popBubble env now b st =
     spawnParticles env now (b_x b) (b_y b) (b_color b) False
       (st\<lparr>grid := markRemoving (key b) (grid st),
           popping := popping st @
             [\<lparr>pop_x = b_x b, pop_y = b_y b, pop_color = b_color b, pop_start = now\<rparr>]\<rparr>)"

text \<open>The array \<^verbatim>\<open>cluster\<close> after \<^verbatim>\<open>dfs(origin)\<close>, with \<^verbatim>\<open>targetColor = origin.color\<close>.\<close>

definition cluster_of :: "grid \<Rightarrow> bubble \<Rightarrow> bubble list" where
  "cluster_of g origin = snd (clusterCheck_dfs g (b_color origin) ({}, []) [origin])"

lemma cluster_of_worklist:
  "cluster_of g origin = snd (cluster_dfs g (b_color origin) {} [] [origin])"
  by (simp only: cluster_of_def clusterCheck_dfs_worklist)

definition clusterCheck :: "env \<Rightarrow> real \<Rightarrow> bubble \<Rightarrow> state \<Rightarrow> state" where
  "clusterCheck env now origin st =
     (let cluster = cluster_of (grid st) origin
      in if length cluster \<ge> minCluster
         then let st1 = fold (popBubble env now) cluster st
              in updateHighScore (st1\<lparr>score := score st1 + int (length cluster) * 10\<rparr>)
         else st)"

text \<open>
  The closure \<^verbatim>\<open>dfs\<close> of \<^verbatim>\<open>floatingCheck\<close>, again as \<^verbatim>\<open>bs.forEach(dfs)\<close> on the set
  \<^verbatim>\<open>connected\<close>.
\<close>

function floatingCheck_dfs :: "grid \<Rightarrow> key set \<Rightarrow> bubble list \<Rightarrow> key set" where
  "floatingCheck_dfs g vis [] = vis"
| "floatingCheck_dfs g vis (b # bs) =
     floatingCheck_dfs g
       (if key b \<in> vis then vis
        else floatingCheck_dfs g (insert (key b) vis) (neighbors g b))
       bs"
  by pat_completeness auto

lemma floatingCheck_dfs_grows:
  "floatingCheck_dfs_dom (g, vis, bs) \<Longrightarrow> vis \<subseteq> floatingCheck_dfs g vis bs"
proof (induction g vis bs rule: floatingCheck_dfs.pinduct)
  case (1 g vis)
  then show ?case by (simp add: floatingCheck_dfs.psimps)
next
  case (2 g vis b bs)
  show ?case
  proof (cases "key b \<in> vis")
    case True
    with 2 show ?thesis by (simp add: floatingCheck_dfs.psimps)
  next
    case False
    with 2 show ?thesis by (auto simp: floatingCheck_dfs.psimps)
  qed
qed

termination floatingCheck_dfs
proof (relation "measures [\<lambda>(g, vis, bs). card (todo g vis bs),
                            \<lambda>(g, vis, bs). length bs]", goal_cases)
  case 1
  show ?case by simp
next
  case (2 g vis b bs)
  then show ?case by (simp add: todo_inner)
next
  case (3 g vis b bs)
  show ?case
  proof (cases "key b \<in> vis")
    case True
    then show ?thesis by (simp add: todo_visited)
  next
    case False
    with 3 have "floatingCheck_dfs_dom (g, insert (key b) vis, neighbors g b)" by simp
    then have "insert (key b) vis \<subseteq> floatingCheck_dfs g (insert (key b) vis) (neighbors g b)"
      by (rule floatingCheck_dfs_grows)
    with False have "card (todo g (floatingCheck_dfs g (insert (key b) vis) (neighbors g b)) bs)
        < card (todo g vis (b # bs))"
      by (rule todo_after)
    with False show ?thesis by simp
  qed
qed

text \<open>The stack form of this traversal.\<close>

function connected_dfs :: "grid \<Rightarrow> key set \<Rightarrow> bubble list \<Rightarrow> key set" where
  "connected_dfs g vis [] = vis"
| "connected_dfs g vis (b # stack) =
     (if key b \<in> vis then connected_dfs g vis stack
      else connected_dfs g (insert (key b) vis) (neighbors g b @ stack))"
  by pat_completeness auto
termination
proof (relation "measures [\<lambda>(g, vis, stack). card (todo g vis stack),
                            \<lambda>(g, vis, stack). length stack]", goal_cases)
  case 1
  show ?case by simp
next
  case (2 b vis g stack)
  then show ?case by (simp add: todo_visited)
next
  case (3 b vis g stack)
  then show ?case by (simp add: todo_expand)
qed

lemma floatingCheck_dfs_append:
  "floatingCheck_dfs g vis (xs @ ys) = floatingCheck_dfs g (floatingCheck_dfs g vis xs) ys"
  by (induction xs arbitrary: vis) simp_all

lemma floatingCheck_dfs_worklist:
  "floatingCheck_dfs g vis stack = connected_dfs g vis stack"
  by (induction g vis stack rule: connected_dfs.induct) (simp_all add: floatingCheck_dfs_append)

text \<open>\<^verbatim>\<open>(state.grid[0] || []).forEach(b => dfs(b))\<close>.\<close>

definition connected_set :: "grid \<Rightarrow> key set" where
  "connected_set g = floatingCheck_dfs g {} (case g of [] \<Rightarrow> [] | r0 # _ \<Rightarrow> r0)"

lemma connected_set_worklist:
  "connected_set g = connected_dfs g {} (case g of [] \<Rightarrow> [] | r0 # _ \<Rightarrow> r0)"
  by (simp only: connected_set_def floatingCheck_dfs_worklist)

text \<open>The test \<^verbatim>\<open>!connected.has(b.row + ':' + b.c) && !b.removing\<close>.\<close>

definition floats :: "key set \<Rightarrow> bubble \<Rightarrow> bool" where
  "floats conn b \<longleftrightarrow> key b \<notin> conn \<and> \<not> b_removing b"

text \<open>
  What the loop body of \<^verbatim>\<open>floatingCheck\<close> does for a bubble that floats, apart from
  splicing it out of its row: the falling bubble, the score and the particles.
\<close>

definition dropBubble :: "env \<Rightarrow> real \<Rightarrow> bubble \<Rightarrow> state \<Rightarrow> state" where
  "dropBubble env now b st =
     spawnParticles env now (b_x b) (b_y b) (b_color b) True
       (st\<lparr>falling := falling st @
             [\<lparr>f_x = b_x b, f_y = b_y b,
               f_vx = (math_random env (draws st) * 2 - 1) * fallJitter,
               f_vy = - math_random env (draws st + 1) * 80,
               f_color = b_color b, f_born = now\<rparr>],
           draws := draws st + 2,
           score := score st + 20\<rparr>)"

text \<open>
  The inner loop runs over a row from its last index down to 0, so the tail of the list is
  handled before its head; the result is the row that is left and the new state.
\<close>

fun dropRow :: "env \<Rightarrow> real \<Rightarrow> key set \<Rightarrow> bubble list \<Rightarrow> state \<Rightarrow> bubble list \<times> state" where
  "dropRow env now conn [] st = ([], st)"
| "dropRow env now conn (b # bs) st =
     (let (bs', st1) = dropRow env now conn bs st
      in if floats conn b then (bs', dropBubble env now b st1) else (b # bs', st1))"

fun dropRows :: "env \<Rightarrow> real \<Rightarrow> key set \<Rightarrow> grid \<Rightarrow> state \<Rightarrow> grid \<times> state" where
  "dropRows env now conn [] st = ([], st)"
| "dropRows env now conn (r # rs) st =
     (let (r', st1) = dropRow env now conn r st;
          (rs', st2) = dropRows env now conn rs st1
      in (r' # rs', st2))"

definition floatingCheck :: "env \<Rightarrow> real \<Rightarrow> state \<Rightarrow> state" where
  "floatingCheck env now st =
     (let conn = connected_set (grid st);
          (g', st1) = dropRows env now conn (grid st) st
      in updateHighScore (st1\<lparr>grid := g'\<rparr>))"

section \<open>Placement\<close>

text \<open>The object literal of a grid bubble, as \<^verbatim>\<open>initGrid\<close> and \<^verbatim>\<open>addBubbleAt\<close> write it.\<close>

definition newBubble :: "int \<Rightarrow> int \<Rightarrow> color \<Rightarrow> bubble" where
  "newBubble r k col =
     \<lparr>b_row = r, b_c = k,
      b_x = bubbleRadius + real_of_int k * bubbleRadius * 2 + real_of_int (r mod 2) * bubbleRadius,
      b_y = bubbleRadius + real_of_int r * rowHeight,
      b_color = col, b_removing = False\<rparr>"

text \<open>The slot a target position snaps to; \<^verbatim>\<open>Math.round\<close> is \<open>round\<close>, halves rounding up.\<close>

definition slotRow :: "real \<Rightarrow> int" where
  "slotRow targetY = max 0 (round ((targetY - bubbleRadius) / rowHeight))"

definition slotCol :: "env \<Rightarrow> int \<Rightarrow> real \<Rightarrow> int" where
  "slotCol env r targetX =
     max 0 (min (perRow env - 1)
       (round ((targetX - real_of_int (r mod 2) * bubbleRadius - bubbleRadius) / (bubbleRadius * 2))))"

text \<open>\<^verbatim>\<open>while (state.grid.length <= row) state.grid.push([])\<close>.\<close>

definition growTo :: "int \<Rightarrow> grid \<Rightarrow> grid" where
  "growTo r g = g @ replicate (nat (r + 1) - length g) []"

text \<open>A slot is occupied when its row exists and holds a bubble with that column.\<close>

definition occupied :: "grid \<Rightarrow> int \<Rightarrow> int \<Rightarrow> bool" where
  "occupied g r k \<longleftrightarrow> 0 \<le> r \<and> nat r < length g \<and> list_ex (\<lambda>b. b_c b = k) (g ! nat r)"

definition addBubbleAt :: "env \<Rightarrow> real \<Rightarrow> projectile \<Rightarrow> real \<Rightarrow> real \<Rightarrow> state \<Rightarrow> state" where
  "addBubbleAt env now p targetX targetY st =
     (let r = slotRow targetY;
          k = slotCol env r targetX;
          g = growTo r (grid st);
          rowArr = g ! nat r
      in if find (\<lambda>b. b_c b = k) rowArr = None
         then let bubble = newBubble r k (p_color p);
                  st1 = st\<lparr>grid := g[nat r := rowArr @ [bubble]]\<rparr>
              in floatingCheck env now (clusterCheck env now bubble st1)
         else st\<lparr>grid := g\<rparr>)"

section \<open>Row pressure\<close>

text \<open>The last loop of \<^verbatim>\<open>pushRow\<close>: every bubble's \<^verbatim>\<open>row\<close> becomes the index of its row.\<close>

fun renumber :: "nat \<Rightarrow> grid \<Rightarrow> grid" where
  "renumber i [] = []"
| "renumber i (r # rs) = map (\<lambda>b. b\<lparr>b_row := int i\<rparr>) r # renumber (Suc i) rs"

definition pushRow :: "env \<Rightarrow> state \<Rightarrow> state" where
  "pushRow env st =
     (let shifted = map (map (\<lambda>b. b\<lparr>b_y := b_y b + rowHeight\<rparr>)) (grid st);
          newRow = map (\<lambda>k. \<lparr>b_row = 0, b_c = int k,
                              b_x = bubbleRadius + real k * bubbleRadius * 2,
                              b_y = bubbleRadius,
                              b_color = pickColor env (draws st + k),
                              b_removing = False\<rparr>)
                     [0 ..< nat (perRow env)]
      in st\<lparr>grid := renumber 0 (newRow # shifted),
            draws := draws st + nat (perRow env)\<rparr>)"

section \<open>Projectile motion and the frame update\<close>

definition hypot :: "real \<Rightarrow> real \<Rightarrow> real" where
  "hypot dx dy = sqrt (dx * dx + dy * dy)"

definition atan2 :: "real \<Rightarrow> real \<Rightarrow> real" where
  "atan2 dy dx =
     (if dx > 0 then arctan (dy / dx)
      else if dx < 0 then (if dy \<ge> 0 then arctan (dy / dx) + pi else arctan (dy / dx) - pi)
      else if dy > 0 then pi / 2
      else if dy < 0 then - (pi / 2)
      else 0)"

definition endGame :: "bool \<Rightarrow> state \<Rightarrow> state" where
  "endGame win st = (updateHighScore st)\<lparr>overlayShown := True, endGames := endGames st @ [win]\<rparr>"

text \<open>The first bubble, in row order, that the projectile touches.\<close>

definition collides :: "projectile \<Rightarrow> bubble \<Rightarrow> bool" where
  "collides p b \<longleftrightarrow> hypot (p_x p - b_x b) (p_y p - b_y b) < bubbleRadius * 2 - 1 / 2"

text \<open>
  The body of the loop \<^verbatim>\<open>for (const p of state.projectiles)\<close> of \<^verbatim>\<open>update\<close>, for an active
  projectile, in three parts. First the motion: position, friction, wall bounce and the
  bounce limit.
\<close>

definition moveProjectile :: "env \<Rightarrow> real \<Rightarrow> projectile \<Rightarrow> projectile" where
  "moveProjectile env dt p =
     (let p1 = p\<lparr>p_x := p_x p + p_vx p * dt, p_y := p_y p + p_vy p * dt,
                p_vx := p_vx p * friction, p_vy := p_vy p * friction\<rparr>;
          p2 = (if p_x p1 < bubbleRadius
                then p1\<lparr>p_x := bubbleRadius, p_vx := \<bar>p_vx p1\<bar>, p_bounces := p_bounces p1 + 1\<rparr>
                else if p_x p1 > real (canvas_width env) - bubbleRadius
                then p1\<lparr>p_x := real (canvas_width env) - bubbleRadius, p_vx := - \<bar>p_vx p1\<bar>,
                        p_bounces := p_bounces p1 + 1\<rparr>
                else p1)
      in if p_bounces p2 > maxBounce then p2\<lparr>p_active := False\<rparr> else p2)"

text \<open>
  The trail point, pushed between the friction and the wall bounce: it carries the position
  before the clamp to the wall.
\<close>

definition leaveTrail :: "real \<Rightarrow> real \<Rightarrow> projectile \<Rightarrow> state \<Rightarrow> state" where
  "leaveTrail now dt p st =
     (let st1 = (if projectileTrail
                 then st\<lparr>trail := trail st @
                        [\<lparr>t_x = p_x p + p_vx p * dt, t_y = p_y p + p_vy p * dt, t_t = now,
                          t_color = p_color p\<rparr>]\<rparr>
                 else st)
      in if length (trail st1) > 400
         then st1\<lparr>trail := drop (length (trail st1) - 400) (trail st1)\<rparr>
         else st1)"

text \<open>Then the ceiling, the collision with the bubbles of the grid, and the floor.\<close>

definition stepProjectile :: "env \<Rightarrow> real \<Rightarrow> real \<Rightarrow> projectile \<Rightarrow> state \<Rightarrow> projectile \<times> state" where
  "stepProjectile env now dt p st =
     (if \<not> p_active p then (p, st)
      else
        let st2 = leaveTrail now dt p st;
            p3 = moveProjectile env dt p
        in if p_y p3 < bubbleRadius
           then (p3\<lparr>p_active := False\<rparr>,
                 addBubbleAt env now (p3\<lparr>p_active := False\<rparr>) (p_x p3) bubbleRadius st2)
           else
             let (p4, st3) =
                   (case find (collides p3) (concat (grid st2)) of
                      None \<Rightarrow> (p3, st2)
                    | Some b \<Rightarrow>
                        let dx = p_x p3 - b_x b; dy = p_y p3 - b_y b;
                            angle = atan2 dy dx;
                            tx = b_x b + cos angle * bubbleRadius * 2;
                            ty = b_y b + sin angle * bubbleRadius * 2
                        in (p3\<lparr>p_active := False\<rparr>,
                            addBubbleAt env now (p3\<lparr>p_active := False\<rparr>) tx ty st2))
             in (if p_y p4 > real (canvas_height env) - 12 then p4\<lparr>p_active := False\<rparr> else p4,
                 st3))"

fun moveProjectiles :: "env \<Rightarrow> real \<Rightarrow> real \<Rightarrow> projectile list \<Rightarrow> state \<Rightarrow> projectile list \<times> state" where
  "moveProjectiles env now dt [] st = ([], st)"
| "moveProjectiles env now dt (p # ps) st =
     (let (p', st1) = stepProjectile env now dt p st;
          (ps', st2) = moveProjectiles env now dt ps st1
      in (p' # ps', st2))"

definition advanceProjectiles :: "env \<Rightarrow> real \<Rightarrow> real \<Rightarrow> state \<Rightarrow> state" where
  "advanceProjectiles env now dt st =
     (let (ps, st1) = moveProjectiles env now dt (projectiles st) st
      in st1\<lparr>projectiles := filter p_active ps\<rparr>)"

text \<open>Popping overlays, falling bubbles and particles: the middle of \<^verbatim>\<open>update\<close>.\<close>

definition advanceEffects :: "env \<Rightarrow> real \<Rightarrow> real \<Rightarrow> state \<Rightarrow> state" where
  "advanceEffects env now dt st =
     st\<lparr>popping := filter (\<lambda>q. now - pop_start q < popDuration) (popping st),
        falling :=
          filter (\<lambda>f. f_y f < real (canvas_height env) + bubbleRadius * 2)
            (map (\<lambda>f. let vy = f_vy f + fallGravity * dt
                       in f\<lparr>f_vy := vy, f_x := f_x f + f_vx f * dt, f_y := f_y f + vy * dt\<rparr>)
               (falling st)),
        particles :=
          map (\<lambda>pt. pt\<lparr>pt_x := pt_x pt + pt_vx pt * dt, pt_y := pt_y pt + pt_vy pt * dt,
                        pt_vy := pt_vy pt + 400 * dt,
                        pt_alpha := 1 - (now - pt_born pt) / particleLife\<rparr>)
            (filter (\<lambda>pt. now - pt_born pt < particleLife) (particles st))\<rparr>"

definition rowPressure :: "env \<Rightarrow> real \<Rightarrow> state \<Rightarrow> state" where
  "rowPressure env dt st =
     (let st1 = st\<lparr>spawnTimer := spawnTimer st + dt * 1000\<rparr>
      in if spawnTimer st1 \<ge> spawnRowInterval
         then (pushRow env st1)\<lparr>spawnTimer := 0\<rparr>
         else st1)"

text \<open>The win and lose checks that end \<^verbatim>\<open>update\<close>.\<close>

definition winLose :: "env \<Rightarrow> state \<Rightarrow> state" where
  "winLose env st =
     (let st1 = (if \<not> gameOver st \<and> list_all (\<lambda>r. length r = 0) (grid st)
                 then endGame True (st\<lparr>gameOver := True\<rparr>)
                 else st);
          dangerY = real (canvas_height env) - 100
      in if \<not> gameOver st1
         then (if list_ex (\<lambda>b. b_y b > dangerY) (concat (grid st1))
               then endGame False (st1\<lparr>gameOver := True\<rparr>)
               else st1)
         else st1)"

text \<open>\<^verbatim>\<open>update(dt)\<close> up to the row push, and whole.\<close>

definition beforeChecks :: "env \<Rightarrow> real \<Rightarrow> real \<Rightarrow> state \<Rightarrow> state" where
  "beforeChecks env now dt st =
     (let sh = shooter st;
          st0 = st\<lparr>shooter := sh\<lparr>s_angle := s_angle sh + (s_targetAngle sh - s_angle sh) * aimDamping\<rparr>\<rparr>
      in rowPressure env dt (advanceEffects env now dt (advanceProjectiles env now dt st0)))"

definition update :: "env \<Rightarrow> real \<Rightarrow> real \<Rightarrow> state \<Rightarrow> state" where
  "update env now dt st = winLose env (beforeChecks env now dt st)"

text \<open>\<^verbatim>\<open>gameLoop(ts)\<close> without the drawing; \<^verbatim>\<open>!state.lastTime\<close> holds when the field is 0.\<close>

definition gameLoop :: "env \<Rightarrow> real \<Rightarrow> real \<Rightarrow> state \<Rightarrow> state" where
  "gameLoop env now ts st =
     (let st1 = (if lastTime st = 0 then st\<lparr>lastTime := ts\<rparr> else st);
          dt = (ts - lastTime st1) / 1000;
          st2 = st1\<lparr>lastTime := ts\<rparr>
      in if \<not> gameOver st2 then update env now dt st2 else st2)"

section \<open>Commands\<close>

definition newProjectile :: "env \<Rightarrow> real \<Rightarrow> state \<Rightarrow> state" where
  "newProjectile env now st =
     (let (col, d) = (case nextColor st of
                        Some col \<Rightarrow> (col, draws st)
                      | None \<Rightarrow> (pickColor env (draws st), draws st + 1));
          p = \<lparr>p_x = s_x (shooter st), p_y = s_y (shooter st),
               p_vx = cos (s_angle (shooter st)) * launchSpeed,
               p_vy = sin (s_angle (shooter st)) * launchSpeed,
               p_color = col, p_active = True, p_bounces = 0, p_born = now\<rparr>
      in st\<lparr>nextColor := Some (pickColor env d), draws := d + 1,
            projectiles := projectiles st @ [p], shots := shots st + 1\<rparr>)"

text \<open>One row of \<^verbatim>\<open>initGrid\<close>, its colours picked from the \<open>d\<close>-th random call on.\<close>

definition initRow :: "env \<Rightarrow> nat \<Rightarrow> nat \<Rightarrow> bubble list" where
  "initRow env r d =
     map (\<lambda>k. newBubble (int r) (int k) (pickColor env (d + k)))
       [0 ..< nat (perRow env - (if r mod 2 \<noteq> 0 then 1 else 0))]"

fun initRows :: "env \<Rightarrow> nat list \<Rightarrow> nat \<Rightarrow> grid \<times> nat" where
  "initRows env [] d = ([], d)"
| "initRows env (r # rs) d =
     (let arr = initRow env r d;
          (g, d') = initRows env rs (d + length arr)
      in (arr # g, d'))"

definition initGrid :: "env \<Rightarrow> state \<Rightarrow> state" where
  "initGrid env st =
     (let (g, d) = initRows env [0 ..< rowCount] (draws st)
      in st\<lparr>grid := g, draws := d\<rparr>)"

definition startGame :: "env \<Rightarrow> state \<Rightarrow> state" where
  "startGame env st =
     (let st1 = initGrid env
                  (st\<lparr>grid := [], projectiles := [], score := 0, shots := 0, gameOver := False,
                      lastTime := 0, spawnTimer := 0, particles := [], popping := [],
                      falling := [], trail := []\<rparr>)
      in st1\<lparr>overlayShown := False, nextColor := Some (pickColor env (draws st1)),
             draws := draws st1 + 1\<rparr>)"

text \<open>The pointer handlers: aiming (with the clamp of the target angle) and firing.\<close>

definition aimAt :: "real \<Rightarrow> real \<Rightarrow> state \<Rightarrow> state" where
  "aimAt px py st =
     (let sh = shooter st;
          a = atan2 (py - s_y sh) (px - s_x sh);
          a1 = (if a > - (2 / 10) then - (2 / 10) else a);
          a2 = (if a1 < - pi + 2 / 10 then - pi + 2 / 10 else a1)
      in st\<lparr>shooter := sh\<lparr>s_targetAngle := a2\<rparr>\<rparr>)"

definition fire :: "env \<Rightarrow> real \<Rightarrow> state \<Rightarrow> state" where
  "fire env now st = (if gameOver st \<or> overlayShown st then st else newProjectile env now st)"

text \<open>
  What can happen to a session: an animation frame (with its timestamp), a mouse move, a
  click, a touch, and the start or restart button.
\<close>

datatype event =
    Frame real real
  | MouseMove real real
  | Click real
  | TouchStart real real real
  | StartGame

fun handle :: "env \<Rightarrow> event \<Rightarrow> state \<Rightarrow> state" where
  "handle env (Frame now ts) st = gameLoop env now ts st"
| "handle env (MouseMove px py) st = aimAt px py st"
| "handle env (Click now) st = fire env now st"
| "handle env (TouchStart now px py) st = fire env now (aimAt px py st)"
| "handle env StartGame st = startGame env st"

definition run :: "env \<Rightarrow> event list \<Rightarrow> state \<Rightarrow> state" where
  "run env evs st = fold (handle env) evs st"

text \<open>The number of bubbles of a grid that carry the \<^verbatim>\<open>removing\<close> flag.\<close>

definition flagged :: "grid \<Rightarrow> nat" where
  "flagged g = length (filter b_removing (concat g))"

section \<open>The second source file\<close>

text \<open>
  \<^verbatim>\<open>src/unnamed/part_001\<close> is another revision of the same script. It has the same
  \<^verbatim>\<open>neighbors\<close> and the same traversals, no effect lists and no high score, and it removes
  marked bubbles in \<^verbatim>\<open>update\<close>. Its operations carry the suffix \<open>_p1\<close> and work on the
  same state record, leaving the fields this revision does not have untouched.
\<close>

definition rowHeight_p1 :: real where
  "rowHeight_p1 = bubbleRadius * (1732 / 1000)"

definition worldToGrid :: "real \<Rightarrow> int" where
  "worldToGrid yy = round ((yy - bubbleRadius) / rowHeight_p1)"

definition clusterCheck_p1 :: "bubble \<Rightarrow> state \<Rightarrow> state" where
  "clusterCheck_p1 origin st =
     (let cluster = cluster_of (grid st) origin
      in if length cluster \<ge> minCluster
         then st\<lparr>grid := fold (\<lambda>b. markRemoving (key b)) cluster (grid st),
                 score := score st + int (length cluster) * 10\<rparr>
         else st)"

text \<open>Here the floating check only sets the flag and scores; nothing is spliced.\<close>

definition floatingCheck_p1 :: "state \<Rightarrow> state" where
  "floatingCheck_p1 st =
     (let conn = connected_set (grid st)
      in st\<lparr>grid := map (map (\<lambda>b. if floats conn b then b\<lparr>b_removing := True\<rparr> else b)) (grid st),
            score := score st + 20 * int (length (filter (floats conn) (concat (grid st))))\<rparr>)"

text \<open>
  \<^verbatim>\<open>addBubbleAt\<close> of this revision takes the row from \<^verbatim>\<open>worldToGrid\<close> without a lower
  bound: for a negative row \<^verbatim>\<open>state.grid[row]\<close> is \<^verbatim>\<open>undefined\<close> and \<^verbatim>\<open>rowArr.find\<close> throws a
  TypeError, the result \<open>None\<close>.
\<close>

definition addBubbleAt_p1 :: "env \<Rightarrow> projectile \<Rightarrow> real \<Rightarrow> real \<Rightarrow> state \<Rightarrow> state option" where
  "addBubbleAt_p1 env p targetX targetY st =
     (let r = worldToGrid targetY
      in if r < 0 then None
         else
           let k = slotCol env r targetX;
               g = growTo r (grid st);
               rowArr = g ! nat r
           in if find (\<lambda>b. b_c b = k) rowArr = None
              then let bubble = (newBubble r k (p_color p))\<lparr>b_y := bubbleRadius + real_of_int r * rowHeight_p1\<rparr>;
                       st1 = st\<lparr>grid := g[nat r := rowArr @ [bubble]]\<rparr>
                   in Some (floatingCheck_p1 (clusterCheck_p1 bubble st1))
              else Some (st\<lparr>grid := g\<rparr>))"

text \<open>
  The loop "Animate removals" of \<^verbatim>\<open>update\<close>: every marked bubble is spliced out of its
  row, and the last row is popped when that leaves it empty.
\<close>

fun sweep_p1 :: "grid \<Rightarrow> grid" where
  "sweep_p1 [] = []"
| "sweep_p1 [r] = (let r' = filter (\<lambda>b. \<not> b_removing b) r in if length r' = 0 then [] else [r'])"
| "sweep_p1 (r # rs) = filter (\<lambda>b. \<not> b_removing b) r # sweep_p1 rs"

definition pushRow_p1 :: "env \<Rightarrow> state \<Rightarrow> state" where
  "pushRow_p1 env st =
     (let shifted = map (map (\<lambda>b. b\<lparr>b_y := b_y b + rowHeight_p1\<rparr>)) (grid st);
          newRow = map (\<lambda>k. \<lparr>b_row = 0, b_c = int k,
                              b_x = bubbleRadius + real k * bubbleRadius * 2,
                              b_y = bubbleRadius,
                              b_color = pickColor env (draws st + k),
                              b_removing = False\<rparr>)
                     [0 ..< nat (perRow env)]
      in st\<lparr>grid := renumber 0 (newRow # shifted),
            draws := draws st + nat (perRow env)\<rparr>)"

section \<open>The same-colour component\<close>

text \<open>
  The cluster in the words of the spec: the connected same-colour component of a bubble is
  what can be reached from it by neighbour links between bubbles of its colour.
\<close>

definition same_color_link :: "grid \<Rightarrow> color \<Rightarrow> (bubble \<times> bubble) set" where
  "same_color_link g col = {(a, b). b \<in> set (neighbors g a) \<and> b_color a = col \<and> b_color b = col}"

definition component :: "grid \<Rightarrow> bubble \<Rightarrow> bubble set" where
  "component g origin = {b. (origin, b) \<in> (same_color_link g (b_color origin))\<^sup>*}"

text \<open>
  What holds of \<^verbatim>\<open>visited\<close>, \<^verbatim>\<open>cluster\<close> and the pending calls at every step of the traversal
  that \<^verbatim>\<open>clusterCheck\<close> starts at \<open>origin\<close>.
\<close>

definition cluster_inv :: "grid \<Rightarrow> bubble \<Rightarrow> key set \<Rightarrow> bubble list \<Rightarrow> bubble list \<Rightarrow> bool" where
  "cluster_inv g origin vis cl stack \<longleftrightarrow>
     set stack \<subseteq> cells g
   \<and> set cl \<subseteq> component g origin
   \<and> (\<forall>s \<in> set stack. b_color s = b_color origin \<longrightarrow> s \<in> component g origin)
   \<and> key ` set cl \<subseteq> vis
   \<and> distinct (map key cl)
   \<and> (\<forall>b \<in> cells g. key b \<in> vis \<longrightarrow> b \<in> set cl \<or> b_color b \<noteq> b_color origin)
   \<and> (\<forall>a \<in> set cl. \<forall>n \<in> set (neighbors g a). key n \<in> vis \<or> n \<in> set stack)
   \<and> (key origin \<in> vis \<or> origin \<in> set stack)"

section \<open>Sample inputs\<close>

text \<open>A small grid: two bubbles in row 0 and one below them.\<close>

definition grid_a :: grid where
  "grid_a = [[newBubble 0 0 ''#60a5fa'', newBubble 0 1 ''#f472b6''],
             [newBubble 1 0 ''#60a5fa'']]"

text \<open>A 480 by 640 canvas whose random source always answers 0.\<close>

definition env_a :: env where
  "env_a = \<lparr>canvas_width = 480, canvas_height = 640, math_random = (\<lambda>k. 0)\<rparr>"

text \<open>A blue projectile close to the ceiling, flying straight up.\<close>

definition shot_a :: projectile where
  "shot_a = \<lparr>p_x = 16, p_y = 20, p_vx = 0, p_vy = - 600, p_color = ''#60a5fa'', p_active = True,
             p_bounces = 0, p_born = 0\<rparr>"

text \<open>A running session with the given grid and nothing else going on.\<close>

definition state_of :: "grid \<Rightarrow> state" where
  "state_of g =
     \<lparr>grid = g, projectiles = [],
      shooter = \<lparr>s_x = 240, s_y = 600, s_angle = - (pi / 2), s_targetAngle = - (pi / 2)\<rparr>,
      nextColor = None, score = 0, shots = 0, gameOver = False, lastTime = 0, spawnTimer = 0,
      particles = [], popping = [], falling = [], trail = [], highScore = 0,
      overlayShown = False, endGames = [], draws = 0\<rparr>"

text \<open>Two rows of two bubbles each.\<close>

definition grid_b :: grid where
  "grid_b = [[newBubble 0 0 ''#60a5fa'', newBubble 0 1 ''#f472b6''],
             [newBubble 1 0 ''#facc15'', newBubble 1 1 ''#60a5fa'']]"

text \<open>
  A column of three bubbles hanging from row 0 (blue, blue, green) with a blue bubble just
  placed beside the top one, before and after the pop of the three blue ones.
\<close>

definition grid_c :: grid where
  "grid_c = [[newBubble 0 0 ''#60a5fa'', newBubble 0 1 ''#60a5fa''],
             [newBubble 1 0 ''#60a5fa''],
             [newBubble 2 0 ''#34d399'']]"

definition grid_c_popped :: grid where
  "grid_c_popped =
     [[(newBubble 0 0 ''#60a5fa'')\<lparr>b_removing := True\<rparr>,
       (newBubble 0 1 ''#60a5fa'')\<lparr>b_removing := True\<rparr>],
      [(newBubble 1 0 ''#60a5fa'')\<lparr>b_removing := True\<rparr>],
      [newBubble 2 0 ''#34d399'']]"

text \<open>A bubble in row 0 and, two rows below, one that touches nothing.\<close>

definition grid_d :: grid where
  "grid_d = [[newBubble 0 0 ''#60a5fa''], [], [newBubble 2 3 ''#f472b6'']]"

text \<open>The column of \<open>grid_c\<close> before the blue bubble is placed at row 0, column 1.\<close>

definition grid_e :: grid where
  "grid_e = [[newBubble 0 0 ''#60a5fa''],
             [newBubble 1 0 ''#60a5fa''],
             [newBubble 2 0 ''#34d399'']]"

text \<open>
  A canvas 40 wide, where a row holds one bubble: a session of \<^verbatim>\<open>src/game.js\<close> in which two blue
  bubbles are left at the top of the 8 rows, the same grid with a third blue bubble placed
  below them, and with the three popped.
\<close>

definition env_n :: env where
  "env_n = \<lparr>canvas_width = 40, canvas_height = 640, math_random = (\<lambda>k. 0)\<rparr>"

definition grid_n :: grid where
  "grid_n = [[newBubble 0 0 ''#60a5fa''], [newBubble 1 0 ''#60a5fa''], [], [], [], [], [], []]"

definition grid_n_placed :: grid where
  "grid_n_placed =
     [[newBubble 0 0 ''#60a5fa''], [newBubble 1 0 ''#60a5fa''], [newBubble 2 0 ''#60a5fa''],
      [], [], [], [], []]"

definition grid_n_popped :: grid where
  "grid_n_popped =
     [[(newBubble 0 0 ''#60a5fa'')\<lparr>b_removing := True\<rparr>],
      [(newBubble 1 0 ''#60a5fa'')\<lparr>b_removing := True\<rparr>],
      [(newBubble 2 0 ''#60a5fa'')\<lparr>b_removing := True\<rparr>],
      [], [], [], [], []]"

text \<open>
  The popped grid with a fourth blue bubble placed below the three flagged ones, before and
  after the pop check of that placement.
\<close>

definition grid_n_again :: grid where
  "grid_n_again =
     [[(newBubble 0 0 ''#60a5fa'')\<lparr>b_removing := True\<rparr>],
      [(newBubble 1 0 ''#60a5fa'')\<lparr>b_removing := True\<rparr>],
      [(newBubble 2 0 ''#60a5fa'')\<lparr>b_removing := True\<rparr>],
      [newBubble 3 0 ''#60a5fa''], [], [], [], []]"

definition grid_n_twice :: grid where
  "grid_n_twice =
     [[(newBubble 0 0 ''#60a5fa'')\<lparr>b_removing := True\<rparr>],
      [(newBubble 1 0 ''#60a5fa'')\<lparr>b_removing := True\<rparr>],
      [(newBubble 2 0 ''#60a5fa'')\<lparr>b_removing := True\<rparr>],
      [(newBubble 3 0 ''#60a5fa'')\<lparr>b_removing := True\<rparr>], [], [], [], []]"

text \<open>
  On the same canvas: a projectile that has bounced 8 times, moving up and to the left wall
  without touching a bubble yet, and where it is after its motion in a frame of 40 ms.
\<close>

definition shot_b :: projectile where
  "shot_b = \<lparr>p_x = 20, p_y = 48, p_vx = - 300, p_vy = - 200, p_color = ''#60a5fa'',
             p_active = True, p_bounces = 8, p_born = 0\<rparr>"

definition shot_b_moved :: projectile where
  "shot_b_moved = \<lparr>p_x = 16, p_y = 40, p_vx = 300 * friction, p_vy = - 200 * friction,
             p_color = ''#60a5fa'', p_active = False, p_bounces = 9, p_born = 0\<rparr>"

text \<open>
  A single pink bubble left in row 0 of the 8 rows, and the grid with a blue bubble placed
  below it.
\<close>

definition grid_f :: grid where
  "grid_f = [[newBubble 0 0 ''#f472b6''], [], [], [], [], [], [], []]"

definition grid_f_placed :: grid where
  "grid_f_placed =
     [[newBubble 0 0 ''#f472b6''], [newBubble 1 0 ''#60a5fa''], [], [], [], [], [], []]"

section \<open>Properties of the grid model\<close>

lemma wf_rows_iff:
  "wf_rows k g \<longleftrightarrow>
     (\<forall>i < length g. (\<forall>b \<in> set (g ! i). b_row b = int (k + i)) \<and> distinct (map b_c (g ! i)))"
proof (induction g arbitrary: k)
  case Nil
  show ?case by simp
next
  case (Cons r rs)
  show ?case
    by (auto simp: Cons.IH less_Suc_eq_0_disj)
qed

lemma wf_grid_iff:
  "wf_grid g \<longleftrightarrow>
     (\<forall>i < length g. (\<forall>b \<in> set (g ! i). b_row b = int i) \<and> distinct (map b_c (g ! i)))"
  by (simp add: wf_grid_def wf_rows_iff)

lemma wf_grid_row: "wf_grid g \<Longrightarrow> j < length g \<Longrightarrow> n \<in> set (g ! j) \<Longrightarrow> b_row n = int j"
  by (simp add: wf_grid_iff)

lemma find_distinct_key:
  "distinct (map f xs) \<Longrightarrow> n \<in> set xs \<Longrightarrow> find (\<lambda>x. f x = f n) xs = Some n"
  by (induction xs) (auto simp: rev_image_eqI)

lemma length_deltas: "length (deltas r) = 6"
  by (simp add: deltas_def)

lemma length_neighbors: "length (neighbors g b) \<le> 6"
proof -
  have "length (List.map_filter f xs) \<le> length xs" for f :: "int \<times> int \<Rightarrow> bubble option" and xs
    by (simp add: List.map_filter_def)
  from this[of _ "deltas (b_row b)"] show ?thesis
    by (simp add: neighbors_def length_deltas)
qed

lemma neighbors_wf_iff:
  assumes "wf_grid g"
  shows "n \<in> set (neighbors g b) \<longleftrightarrow>
     (0 \<le> b_row b \<and> b_row b < int (length g) \<and>
      (\<exists>(dr, dc) \<in> set (deltas (b_row b)). \<exists>j < length g.
         int j = b_row b + dr \<and> n \<in> set (g ! j) \<and> b_c n = b_c b + dc))"
proof -
  have d: "distinct (map b_c (g ! j))" if "j < length g" for j
    using assms that by (simp add: wf_grid_iff)
  show ?thesis
  proof
    assume "n \<in> set (neighbors g b)"
    then obtain dr dc where r: "0 \<le> b_row b" "b_row b < int (length g)"
      and m: "(dr, dc) \<in> set (deltas (b_row b))"
      and nr: "0 \<le> b_row b + dr" "b_row b + dr < int (length g)"
      and f: "find (\<lambda>x. b_c x = b_c b + dc) (g ! nat (b_row b + dr)) = Some n"
      by (auto simp: neighbors_iff)
    from f have "n \<in> set (g ! nat (b_row b + dr))" "b_c n = b_c b + dc"
      by (auto dest: find_SomeD)
    with r m nr show "0 \<le> b_row b \<and> b_row b < int (length g) \<and>
      (\<exists>(dr, dc) \<in> set (deltas (b_row b)). \<exists>j < length g.
         int j = b_row b + dr \<and> n \<in> set (g ! j) \<and> b_c n = b_c b + dc)"
      by (intro conjI bexI[of _ "(dr, dc)"]) (auto intro!: exI[of _ "nat (b_row b + dr)"])
  next
    assume "0 \<le> b_row b \<and> b_row b < int (length g) \<and>
      (\<exists>(dr, dc) \<in> set (deltas (b_row b)). \<exists>j < length g.
         int j = b_row b + dr \<and> n \<in> set (g ! j) \<and> b_c n = b_c b + dc)"
    then obtain dr dc j where r: "0 \<le> b_row b" "b_row b < int (length g)"
      and m: "(dr, dc) \<in> set (deltas (b_row b))"
      and j: "j < length g" "int j = b_row b + dr" "n \<in> set (g ! j)" "b_c n = b_c b + dc"
      by auto
    from d[OF j(1)] j(3) have "find (\<lambda>x. b_c x = b_c n) (g ! j) = Some n"
      by (rule find_distinct_key)
    moreover have "nat (b_row b + dr) = j" "0 \<le> b_row b + dr" "b_row b + dr < int (length g)"
      using j(1,2) by linarith+
    ultimately show "n \<in> set (neighbors g b)"
      using r m j(4) unfolding neighbors_iff by (intro conjI exI[of _ dr] exI[of _ dc]) auto
  qed
qed

lemma set_deltas:
  "set (deltas r) =
     (if even r then {(0, -1), (0, 1), (-1, 0), (-1, 1), (1, 0), (1, 1)}
      else {(0, -1), (0, 1), (-1, -1), (-1, 0), (1, -1), (1, 0)})"
  by (auto simp: deltas_def even_iff_mod_2_eq_zero)

lemma neighbors_offsets:
  assumes wf: "wf_grid g" and i: "i < length g" and b: "b \<in> set (g ! i)"
  shows "set (neighbors g b) =
      {n \<in> cells g. (b_row n - b_row b, b_c n - b_c b) \<in> set (deltas (b_row b))}"
proof (intro set_eqI iffI)
  fix n assume "n \<in> set (neighbors g b)"
  then obtain dr dc j where m: "(dr, dc) \<in> set (deltas (b_row b))"
    and j: "j < length g" "int j = b_row b + dr" "n \<in> set (g ! j)" "b_c n = b_c b + dc"
    using neighbors_wf_iff[OF wf, of n b] by auto
  have "b_row n = int j" using wf j(1,3) by (rule wf_grid_row)
  with m j show "n \<in> {n \<in> cells g. (b_row n - b_row b, b_c n - b_c b) \<in> set (deltas (b_row b))}"
    by (auto simp: cells_iff)
next
  fix n assume "n \<in> {n \<in> cells g. (b_row n - b_row b, b_c n - b_c b) \<in> set (deltas (b_row b))}"
  then obtain j where j: "j < length g" "n \<in> set (g ! j)"
    and m: "(b_row n - b_row b, b_c n - b_c b) \<in> set (deltas (b_row b))"
    by (auto simp: cells_iff)
  have rb: "b_row b = int i" using wf i b by (rule wf_grid_row)
  have "b_row n = int j" using wf j by (rule wf_grid_row)
  then show "n \<in> set (neighbors g b)"
    unfolding neighbors_wf_iff[OF wf] using rb i j m
    by (intro conjI bexI[OF _ m]) (auto intro!: exI[of _ j])
qed

section \<open>The neighbour function\<close>

text \<open>
  C6. In a grid that satisfies the invariant of the data model, for a bubble \<open>b\<close> of the
  grid, \<^verbatim>\<open>neighbors(b)\<close> returns only occupied cells, whose row index lies between 0 and the
  number of rows less one; it never returns \<open>b\<close>; it returns at most 6 bubbles; and the
  bubbles it returns are exactly the occupied cells whose (row, column) offset from \<open>b\<close> is in
  the table of the parity of \<open>b\<close>'s row. A table entry that points outside the rows of
  the grid, or at an empty slot, contributes nothing.
\<close>

theorem neighbors_spec:
  assumes wf: "wf_grid g" and i: "i < length g" and b: "b \<in> set (g ! i)"
  shows "(\<forall>n \<in> set (neighbors g b). 0 \<le> b_row n \<and> b_row n < int (length g) \<and> n \<in> cells g)
       \<and> b \<notin> set (neighbors g b)
       \<and> length (neighbors g b) \<le> 6
       \<and> set (neighbors g b) =
           {n \<in> cells g. (b_row n - b_row b, b_c n - b_c b) \<in>
              (if even (b_row b)
               then {(0, -1), (0, 1), (-1, 0), (-1, 1), (1, 0), (1, 1)}
               else {(0, -1), (0, 1), (-1, -1), (-1, 0), (1, -1), (1, 0)})}"
proof -
  note eq = neighbors_offsets[OF wf i b]
  have self: "b \<notin> set (neighbors g b)"
    unfolding eq by (auto simp: deltas_def)
  have rng: "\<forall>n \<in> set (neighbors g b). 0 \<le> b_row n \<and> b_row n < int (length g) \<and> n \<in> cells g"
  proof
    fix n assume "n \<in> set (neighbors g b)"
    then have c: "n \<in> cells g" by (simp add: eq)
    then obtain j where j: "j < length g" "n \<in> set (g ! j)" by (auto simp: cells_iff)
    have "b_row n = int j" using wf j by (rule wf_grid_row)
    with j c show "0 \<le> b_row n \<and> b_row n < int (length g) \<and> n \<in> cells g" by simp
  qed
  from eq have eq': "set (neighbors g b) =
           {n \<in> cells g. (b_row n - b_row b, b_c n - b_c b) \<in>
              (if even (b_row b)
               then {(0, - 1), (0, 1), (- 1, 0), (- 1, 1), (1, 0), (1, 1)}
               else {(0, - 1), (0, 1), (- 1, - 1), (- 1, 0), (1, - 1), (1, 0)})}"
    by (simp only: set_deltas)
  from rng self length_neighbors[of g b] eq' show ?thesis
    by blast
qed

theorem neighbors_spec_witness:
  "wf_grid grid_a \<and> (0::nat) < length grid_a \<and> newBubble 0 0 ''#60a5fa'' \<in> set (grid_a ! 0)
   \<and> set (neighbors grid_a (newBubble 0 0 ''#60a5fa'')) =
       {newBubble 0 1 ''#f472b6'', newBubble 1 0 ''#60a5fa''}
   \<and> newBubble 0 0 ''#60a5fa'' \<notin> set (neighbors grid_a (newBubble 0 0 ''#60a5fa''))"
proof -
  have h: "wf_grid grid_a" "(0::nat) < length grid_a" "newBubble 0 0 ''#60a5fa'' \<in> set (grid_a ! 0)"
    by (simp_all add: wf_grid_def grid_a_def newBubble_def)
  have n: "neighbors grid_a (newBubble 0 0 ''#60a5fa'') =
      [newBubble 0 1 ''#f472b6'', newBubble 1 0 ''#60a5fa'']"
    by (simp add: neighbors_def deltas_def grid_a_def newBubble_def List.map_filter_def)
  from neighbors_spec[OF h] h n show ?thesis by simp
qed

section \<open>Placement into an occupied slot\<close>

lemma growTo_id: "0 \<le> r \<Longrightarrow> nat r < length g \<Longrightarrow> growTo r g = g"
  by (simp add: growTo_def)

lemma find_None_ex: "find P xs = None \<longleftrightarrow> \<not> list_ex P xs"
  by (auto simp: find_None_iff list_ex_iff)

lemma addBubbleAt_occupied:
  assumes "occupied (grid st) (slotRow ty) (slotCol env (slotRow ty) tx)"
  shows "addBubbleAt env now p tx ty st = st"
  using assms by (simp add: addBubbleAt_def occupied_def Let_def growTo_id find_None_ex)

lemma addBubbleAt_p1_occupied:
  assumes "occupied (grid st) (worldToGrid ty) (slotCol env (worldToGrid ty) tx)"
  shows "addBubbleAt_p1 env p tx ty st = Some st"
  using assms by (simp add: addBubbleAt_p1_def occupied_def Let_def growTo_id find_None_ex)

lemma grid_leaveTrail: "grid (leaveTrail now dt q st) = grid st"
  by (simp add: leaveTrail_def Let_def)

lemma stepProjectile_consumes:
  assumes "p_active q"
    and "p_y (moveProjectile env dt q) < bubbleRadius
         \<or> list_ex (collides (moveProjectile env dt q)) (concat (grid st))"
  shows "\<not> p_active (fst (stepProjectile env now dt q st))"
  using assms
  by (auto simp: stepProjectile_def Let_def grid_leaveTrail find_None_ex
           split: option.splits prod.splits)

lemma perRow_env_a: "perRow env_a = 15"
  by (simp add: perRow_def env_a_def bubbleRadius_def)

lemma slotRow_16: "slotRow 16 = 0" "worldToGrid 16 = 0"
  by (simp_all add: slotRow_def worldToGrid_def bubbleRadius_def)

lemma slotCol_16: "slotCol env_a 0 16 = 0"
  by (simp add: slotCol_def perRow_env_a bubbleRadius_def)

text \<open>
  C2. When the slot that a target position snaps to is already occupied, \<^verbatim>\<open>addBubbleAt\<close>
  returns the state it was given, in both source files: no bubble is added or replaced, the
  rows keep their lengths, the score stays, and neither check leaves a trace. The shot is
  consumed all the same: whenever the frame update attempts a placement for an active
  projectile (at the ceiling or on a collision), that projectile comes out inactive.
\<close>

theorem occupied_slot_noop:
  "(occupied (grid st) (slotRow ty) (slotCol env (slotRow ty) tx)
      \<longrightarrow> addBubbleAt env now p tx ty st = st)
   \<and> (occupied (grid st) (worldToGrid ty) (slotCol env (worldToGrid ty) tx)
      \<longrightarrow> addBubbleAt_p1 env p tx ty st = Some st)
   \<and> (p_active q \<and> (p_y (moveProjectile env dt q) < bubbleRadius
                     \<or> list_ex (collides (moveProjectile env dt q)) (concat (grid st)))
      \<longrightarrow> \<not> p_active (fst (stepProjectile env now dt q st)))"
  using addBubbleAt_occupied addBubbleAt_p1_occupied stepProjectile_consumes by blast

theorem occupied_slot_noop_witness:
  "occupied (grid (state_of grid_a)) (slotRow 16) (slotCol env_a (slotRow 16) 16)
   \<and> addBubbleAt env_a 0 shot_a 16 16 (state_of grid_a) = state_of grid_a
   \<and> occupied (grid (state_of grid_a)) (worldToGrid 16) (slotCol env_a (worldToGrid 16) 16)
   \<and> addBubbleAt_p1 env_a shot_a 16 16 (state_of grid_a) = Some (state_of grid_a)
   \<and> p_active shot_a \<and> p_y (moveProjectile env_a (1 / 60) shot_a) < bubbleRadius
   \<and> \<not> p_active (fst (stepProjectile env_a 0 (1 / 60) shot_a (state_of grid_a)))"
proof -
  have o: "occupied (grid (state_of grid_a)) 0 0"
    by (simp add: occupied_def state_of_def grid_a_def newBubble_def)
  have m: "p_active shot_a" "p_y (moveProjectile env_a (1 / 60) shot_a) < bubbleRadius"
    by (simp_all add: shot_a_def moveProjectile_def Let_def bubbleRadius_def env_a_def)
  from occupied_slot_noop[where st = "state_of grid_a" and ty = 16 and tx = 16 and env = env_a
      and now = 0 and p = shot_a and q = shot_a and dt = "1 / 60"] o m
  show ?thesis by (simp add: slotRow_16 slotCol_16)
qed

section \<open>Row push\<close>

lemma length_renumber: "length (renumber k g) = length g"
  by (induction g arbitrary: k) auto

lemma renumber_nth:
  "i < length g \<Longrightarrow> renumber k g ! i = map (\<lambda>b. b\<lparr>b_row := int (k + i)\<rparr>) (g ! i)"
proof (induction g arbitrary: k i)
  case Nil
  then show ?case by simp
next
  case (Cons r rs)
  show ?case
  proof (cases i)
    case 0
    then show ?thesis by simp
  next
    case (Suc j)
    with Cons.prems have "j < length rs" by simp
    from Cons.IH[OF this, of "Suc k"] Suc show ?thesis by simp
  qed
qed

lemma pickColor_palette:
  assumes "0 \<le> math_random env k" "math_random env k < 1"
  shows "pickColor env k \<in> set colors"
proof -
  have l: "length colors = 6" by (simp add: colors_def)
  have "0 \<le> \<lfloor>math_random env k * 6\<rfloor>" using assms(1) by simp
  moreover have "\<lfloor>math_random env k * 6\<rfloor> < 6" using assms(2) by (simp add: floor_less_iff)
  ultimately have "nat \<lfloor>math_random env k * 6\<rfloor> < 6" by linarith
  then show ?thesis unfolding pickColor_def l by (simp add: l)
qed

text \<open>The grid that a row push builds from a grid \<open>g\<close>, for a row height \<open>h\<close>.\<close>

lemma pushed_grid:
  fixes g :: grid and newRow :: "bubble list" and h :: real
  assumes wf: "wf_grid g" and rows: "\<forall>r \<in> set g. length r = N"
    and new: "\<forall>b \<in> set newRow. b_row b = 0"
  defines "g' \<equiv> renumber 0 (newRow # map (map (\<lambda>b. b\<lparr>b_y := b_y b + h\<rparr>)) g)"
  shows "length g' = Suc (length g)"
    and "g' ! 0 = newRow"
    and "\<forall>i < length g. length (g' ! Suc i) = N \<and>
           (\<forall>j < N. g' ! Suc i ! j =
              (g ! i ! j)\<lparr>b_row := b_row (g ! i ! j) + 1, b_y := b_y (g ! i ! j) + h\<rparr>)"
proof -
  show "length g' = Suc (length g)" by (simp add: g'_def length_renumber)
  have "map (\<lambda>b. b\<lparr>b_row := 0\<rparr>) newRow = newRow"
    using new by (induction newRow) auto
  then show "g' ! 0 = newRow" by (simp add: g'_def)
  show "\<forall>i < length g. length (g' ! Suc i) = N \<and>
           (\<forall>j < N. g' ! Suc i ! j =
              (g ! i ! j)\<lparr>b_row := b_row (g ! i ! j) + 1, b_y := b_y (g ! i ! j) + h\<rparr>)"
  proof (intro allI impI)
    fix i assume i: "i < length g"
    then have len: "length (g ! i) = N" using rows by simp
    have nth: "g' ! Suc i = map (\<lambda>b. b\<lparr>b_row := int (Suc i)\<rparr>) (map (\<lambda>b. b\<lparr>b_y := b_y b + h\<rparr>) (g ! i))"
      using i by (simp add: g'_def renumber_nth)
    have "g' ! Suc i ! j = (g ! i ! j)\<lparr>b_row := b_row (g ! i ! j) + 1, b_y := b_y (g ! i ! j) + h\<rparr>"
      if j: "j < N" for j
    proof -
      have "g ! i ! j \<in> set (g ! i)" using j len by simp
      then have "b_row (g ! i ! j) = int i" using wf i by (simp add: wf_grid_iff)
      then show ?thesis using j len by (simp add: nth)
    qed
    then show "length (g' ! Suc i) = N \<and>
           (\<forall>j < N. g' ! Suc i ! j =
              (g ! i ! j)\<lparr>b_row := b_row (g ! i ! j) + 1, b_y := b_y (g ! i ! j) + h\<rparr>)"
      by (simp add: nth len)
  qed
qed

text \<open>
  C5. On a grid of 2 rows with \<open>N\<close> bubbles each that satisfies the grid invariant, one
  \<^verbatim>\<open>pushRow()\<close> yields 3 rows: each earlier bubble sits one row further down, unchanged but
  for its row index, which is one more, and its y, which is larger by exactly one row height;
  row 0 is a new row of \<open>perRow\<close> bubbles with columns 0, 1, ... in order, y equal to the
  bubble radius, and colours picked by the next \<open>perRow\<close> random calls. The same holds in the
  second source file with its own row height. Coordinates are exact reals here.
\<close>

theorem pushRow_two_rows:
  assumes wf: "wf_grid (grid st)" and two: "length (grid st) = 2"
    and rows: "\<forall>r \<in> set (grid st). length r = N"
  shows "(let g' = grid (pushRow env st) in
            length g' = 3
          \<and> (\<forall>i < 2. length (g' ! Suc i) = N \<and>
               (\<forall>j < N. g' ! Suc i ! j =
                  (grid st ! i ! j)\<lparr>b_row := b_row (grid st ! i ! j) + 1,
                                     b_y := b_y (grid st ! i ! j) + rowHeight\<rparr>))
          \<and> length (g' ! 0) = nat (perRow env)
          \<and> (\<forall>k < nat (perRow env).
                g' ! 0 ! k = \<lparr>b_row = 0, b_c = int k,
                              b_x = bubbleRadius + real k * bubbleRadius * 2,
                              b_y = bubbleRadius,
                              b_color = pickColor env (draws st + k),
                              b_removing = False\<rparr>))
       \<and> (let g' = grid (pushRow_p1 env st) in
            length g' = 3
          \<and> (\<forall>i < 2. length (g' ! Suc i) = N \<and>
               (\<forall>j < N. g' ! Suc i ! j =
                  (grid st ! i ! j)\<lparr>b_row := b_row (grid st ! i ! j) + 1,
                                     b_y := b_y (grid st ! i ! j) + rowHeight_p1\<rparr>))
          \<and> length (g' ! 0) = nat (perRow env)
          \<and> (\<forall>k < nat (perRow env).
                g' ! 0 ! k = \<lparr>b_row = 0, b_c = int k,
                              b_x = bubbleRadius + real k * bubbleRadius * 2,
                              b_y = bubbleRadius,
                              b_color = pickColor env (draws st + k),
                              b_removing = False\<rparr>))"
proof -
  let ?new = "map (\<lambda>k. \<lparr>b_row = 0, b_c = int k,
                              b_x = bubbleRadius + real k * bubbleRadius * 2,
                              b_y = bubbleRadius,
                              b_color = pickColor env (draws st + k),
                              b_removing = False\<rparr>)
                     [0 ..< nat (perRow env)]"
  have new: "\<forall>b \<in> set ?new. b_row b = 0" by auto
  have g: "grid (pushRow env st) =
      renumber 0 (?new # map (map (\<lambda>b. b\<lparr>b_y := b_y b + rowHeight\<rparr>)) (grid st))"
    by (simp add: pushRow_def Let_def)
  have g1: "grid (pushRow_p1 env st) =
      renumber 0 (?new # map (map (\<lambda>b. b\<lparr>b_y := b_y b + rowHeight_p1\<rparr>)) (grid st))"
    by (simp add: pushRow_p1_def Let_def)
  have top: "length ?new = nat (perRow env)"
    "\<forall>k < nat (perRow env). ?new ! k = \<lparr>b_row = 0, b_c = int k,
                              b_x = bubbleRadius + real k * bubbleRadius * 2,
                              b_y = bubbleRadius,
                              b_color = pickColor env (draws st + k),
                              b_removing = False\<rparr>"
    by simp_all
  note a = pushed_grid[OF wf rows new, of rowHeight, folded g]
  note b = pushed_grid[OF wf rows new, of rowHeight_p1, folded g1]
  show ?thesis
    unfolding Let_def a(2) b(2) using a(1,3) b(1,3) top two by simp
qed

theorem pushRow_two_rows_witness:
  "wf_grid (grid (state_of grid_b)) \<and> length (grid (state_of grid_b)) = 2
   \<and> map length (grid (state_of grid_b)) = [2, 2]
   \<and> length (grid (pushRow env_a (state_of grid_b))) = 3
   \<and> grid (pushRow env_a (state_of grid_b)) ! 2 ! 0 =
        (newBubble 1 0 ''#facc15'')\<lparr>b_row := 2, b_y := bubbleRadius + rowHeight + rowHeight\<rparr>
   \<and> length (grid (pushRow env_a (state_of grid_b)) ! 0) = 15
   \<and> length (grid (pushRow_p1 env_a (state_of grid_b))) = 3"
proof -
  have h: "wf_grid (grid (state_of grid_b))" "length (grid (state_of grid_b)) = 2"
    "\<forall>r \<in> set (grid (state_of grid_b)). length r = 2"
    by (simp_all add: state_of_def grid_b_def wf_grid_def newBubble_def)
  have m: "map length (grid (state_of grid_b)) = [2, 2]"
    by (simp add: state_of_def grid_b_def)
  have v: "grid (state_of grid_b) ! Suc 0 ! 0 = newBubble 1 0 ''#facc15''"
    by (simp add: state_of_def grid_b_def)
  have r: "(newBubble 1 0 ''#facc15'')\<lparr>b_row := b_row (newBubble 1 0 ''#facc15'') + 1,
              b_y := b_y (newBubble 1 0 ''#facc15'') + rowHeight\<rparr> =
        (newBubble 1 0 ''#facc15'')\<lparr>b_row := 2, b_y := bubbleRadius + rowHeight + rowHeight\<rparr>"
    by (simp add: newBubble_def)
  from pushRow_two_rows[OF h, of env_a] have
    "length (grid (pushRow env_a (state_of grid_b))) = 3"
    "length (grid (pushRow_p1 env_a (state_of grid_b))) = 3"
    "length (grid (pushRow env_a (state_of grid_b)) ! 0) = nat (perRow env_a)"
    "grid (pushRow env_a (state_of grid_b)) ! Suc 1 ! 0 =
       (grid (state_of grid_b) ! 1 ! 0)\<lparr>b_row := b_row (grid (state_of grid_b) ! 1 ! 0) + 1,
           b_y := b_y (grid (state_of grid_b) ! 1 ! 0) + rowHeight\<rparr>"
    by (simp_all add: Let_def)
  with h(1,2) m show ?thesis by (simp add: v r perRow_env_a numeral_2_eq_2)
qed

section \<open>Effects of the two checks\<close>

subsection \<open>What the checks do to the grid and the score\<close>

lemma spawnParticles_fields:
  "grid (spawnParticles env now px py col d st) = grid st"
  "score (spawnParticles env now px py col d st) = score st"
  "gameOver (spawnParticles env now px py col d st) = gameOver st"
  "endGames (spawnParticles env now px py col d st) = endGames st"
  by (simp_all add: spawnParticles_def)

lemma updateHighScore_fields:
  "grid (updateHighScore st) = grid st"
  "score (updateHighScore st) = score st"
  "gameOver (updateHighScore st) = gameOver st"
  "endGames (updateHighScore st) = endGames st"
  by (simp_all add: updateHighScore_def)

lemma popBubble_fields:
  "grid (popBubble env now b st) = markRemoving (key b) (grid st)"
  "score (popBubble env now b st) = score st"
  "gameOver (popBubble env now b st) = gameOver st"
  "endGames (popBubble env now b st) = endGames st"
  by (simp_all add: popBubble_def spawnParticles_fields)

lemma fold_popBubble_fields:
  "grid (fold (popBubble env now) cl st) = fold (\<lambda>b. markRemoving (key b)) cl (grid st)"
  "score (fold (popBubble env now) cl st) = score st"
  "gameOver (fold (popBubble env now) cl st) = gameOver st"
  "endGames (fold (popBubble env now) cl st) = endGames st"
  by (induction cl arbitrary: st) (simp_all add: popBubble_fields)

lemma clusterCheck_grid:
  "grid (clusterCheck env now origin st) =
     (if minCluster \<le> length (cluster_of (grid st) origin)
      then fold (\<lambda>b. markRemoving (key b)) (cluster_of (grid st) origin) (grid st)
      else grid st)"
  by (simp add: clusterCheck_def Let_def updateHighScore_fields fold_popBubble_fields)

lemma clusterCheck_score:
  "score (clusterCheck env now origin st) =
     (if minCluster \<le> length (cluster_of (grid st) origin)
      then score st + int (length (cluster_of (grid st) origin)) * 10
      else score st)"
  by (simp add: clusterCheck_def Let_def updateHighScore_fields fold_popBubble_fields)

lemma clusterCheck_fields:
  "gameOver (clusterCheck env now origin st) = gameOver st"
  "endGames (clusterCheck env now origin st) = endGames st"
  by (simp_all add: clusterCheck_def Let_def updateHighScore_fields fold_popBubble_fields)

lemma dropBubble_fields:
  "grid (dropBubble env now b st) = grid st"
  "score (dropBubble env now b st) = score st + 20"
  "gameOver (dropBubble env now b st) = gameOver st"
  "endGames (dropBubble env now b st) = endGames st"
  by (simp_all add: dropBubble_def spawnParticles_fields)

lemma dropRow_fields:
  "fst (dropRow env now conn r st) = filter (\<lambda>b. \<not> floats conn b) r"
  "grid (snd (dropRow env now conn r st)) = grid st"
  "score (snd (dropRow env now conn r st)) = score st + 20 * int (length (filter (floats conn) r))"
  "gameOver (snd (dropRow env now conn r st)) = gameOver st"
  "endGames (snd (dropRow env now conn r st)) = endGames st"
  by (induction r) (simp_all add: dropBubble_fields split_beta Let_def)

lemma dropRows_fields:
  "fst (dropRows env now conn g st) = map (filter (\<lambda>b. \<not> floats conn b)) g"
  "grid (snd (dropRows env now conn g st)) = grid st"
  "score (snd (dropRows env now conn g st)) =
     score st + 20 * int (length (filter (floats conn) (concat g)))"
  "gameOver (snd (dropRows env now conn g st)) = gameOver st"
  "endGames (snd (dropRows env now conn g st)) = endGames st"
  by (induction g arbitrary: st)
     (simp_all add: dropRow_fields split_beta Let_def algebra_simps)

lemma floatingCheck_grid:
  "grid (floatingCheck env now st) =
     map (filter (\<lambda>b. \<not> floats (connected_set (grid st)) b)) (grid st)"
  using dropRows_fields(1)[of env now "connected_set (grid st)" "grid st" st]
  by (simp add: floatingCheck_def Let_def updateHighScore_fields split_beta)

lemma floatingCheck_score:
  "score (floatingCheck env now st) =
     score st + 20 * int (length (filter (floats (connected_set (grid st))) (concat (grid st))))"
  using dropRows_fields(3)[of env now "connected_set (grid st)" "grid st" st]
  by (simp add: floatingCheck_def Let_def updateHighScore_fields split_beta)

lemma floatingCheck_fields:
  "gameOver (floatingCheck env now st) = gameOver st"
  "endGames (floatingCheck env now st) = endGames st"
  using dropRows_fields(4,5)[of env now "connected_set (grid st)" "grid st" st]
  by (simp_all add: floatingCheck_def Let_def updateHighScore_fields split_beta)

subsection \<open>A pop keeps the cells\<close>

lemma find_map:
  "find P (map f xs) = map_option f (find (\<lambda>x. P (f x)) xs)"
  by (induction xs) auto

lemma map_filter_map_option:
  "List.map_filter (\<lambda>d. map_option f (h d)) ds = map f (List.map_filter h ds)"
  by (induction ds) (auto simp: List.map_filter_def)

lemma neighbors_map:
  assumes "\<And>x. b_c (f x) = b_c x"
  shows "neighbors (map (map f) g) b = map f (neighbors g b)"
proof -
  have "(\<lambda>(dr, dc). let nr = b_row b + dr; nc = b_c b + dc
           in if nr < 0 \<or> int (length (map (map f) g)) \<le> nr then None
              else find (\<lambda>x. b_c x = nc) (map (map f) g ! nat nr))
      = (\<lambda>d. map_option f ((\<lambda>(dr, dc). let nr = b_row b + dr; nc = b_c b + dc
           in if nr < 0 \<or> int (length g) \<le> nr then None
              else find (\<lambda>x. b_c x = nc) (g ! nat nr)) d))"
    by (auto simp: fun_eq_iff Let_def find_map assms)
  then show ?thesis
    unfolding neighbors_def by (simp add: map_filter_map_option)
qed

lemma markRemoving_shape:
  "map (map (\<lambda>b. b\<lparr>b_removing := False\<rparr>)) (markRemoving k g) =
   map (map (\<lambda>b. b\<lparr>b_removing := False\<rparr>)) g"
  by (simp add: markRemoving_def comp_def if_distrib cong: if_cong)

lemma fold_markRemoving_shape:
  "map (map (\<lambda>b. b\<lparr>b_removing := False\<rparr>)) (fold (\<lambda>b. markRemoving (key b)) cl g) =
   map (map (\<lambda>b. b\<lparr>b_removing := False\<rparr>)) g"
  by (induction cl arbitrary: g) (simp_all add: markRemoving_shape)

lemma neighbors_markRemoving:
  "map key (neighbors (markRemoving k g) b) = map key (neighbors g b)"
  unfolding markRemoving_def by (subst neighbors_map) (auto simp: key_def)

lemma neighbors_fold_markRemoving:
  "map key (neighbors (fold (\<lambda>b. markRemoving (key b)) cl g) b) = map key (neighbors g b)"
  by (induction cl arbitrary: g) (simp_all add: neighbors_markRemoving)

lemma shape_lengths:
  assumes "map (map f) g' = map (map f) g"
  shows "map length g' = map length g"
proof -
  have "map length (map (map f) g') = map length (map (map f) g)" using assms by simp
  then show ?thesis by (simp add: comp_def)
qed

lemma clusterCheck_shape:
  "map (map (\<lambda>b. b\<lparr>b_removing := False\<rparr>)) (grid (clusterCheck env now origin st)) =
   map (map (\<lambda>b. b\<lparr>b_removing := False\<rparr>)) (grid st)"
  by (simp add: clusterCheck_grid fold_markRemoving_shape)

lemma clusterCheck_neighbors:
  "map key (neighbors (grid (clusterCheck env now origin st)) b) = map key (neighbors (grid st) b)"
  by (simp add: clusterCheck_grid neighbors_fold_markRemoving)

lemma floatingCheck_keeps_marked:
  assumes "b \<in> cells (grid st)" "b_removing b"
  shows "b \<in> cells (grid (floatingCheck env now st))"
  using assms by (auto simp: floatingCheck_grid cells_def floats_def)

lemma cluster_of_grid_c:
  "cluster_of grid_c (newBubble 0 1 ''#60a5fa'') =
     [newBubble 0 1 ''#60a5fa'', newBubble 0 0 ''#60a5fa'', newBubble 1 0 ''#60a5fa'']"
  by (simp add: cluster_of_worklist neighbors_def deltas_def List.map_filter_def grid_c_def
        newBubble_def key_def)

lemma clusterCheck_grid_c:
  "grid (clusterCheck env now (newBubble 0 1 ''#60a5fa'') (state_of grid_c)) = grid_c_popped"
proof -
  have g: "grid (state_of grid_c) = grid_c" by (simp add: state_of_def)
  show ?thesis
    unfolding clusterCheck_grid g cluster_of_grid_c
    by (simp add: minCluster_def markRemoving_def grid_c_def grid_c_popped_def newBubble_def key_def)
qed

lemma connected_set_grid_c_popped: "connected_set grid_c_popped = {(0, 0), (0, 1), (1, 0), (2, 0)}"
  by (simp add: connected_set_worklist neighbors_def deltas_def List.map_filter_def grid_c_popped_def
        newBubble_def key_def insert_commute)

section \<open>Score and termination\<close>

subsection \<open>Score and end of game through a frame\<close>

lemma addBubbleAt_fields:
  "score st \<le> score (addBubbleAt env now p tx ty st)"
  "gameOver (addBubbleAt env now p tx ty st) = gameOver st"
  "endGames (addBubbleAt env now p tx ty st) = endGames st"
  by (simp_all add: addBubbleAt_def Let_def floatingCheck_score floatingCheck_fields
        clusterCheck_score clusterCheck_fields)

lemma leaveTrail_fields:
  "score (leaveTrail now dt p st) = score st"
  "gameOver (leaveTrail now dt p st) = gameOver st"
  "endGames (leaveTrail now dt p st) = endGames st"
  by (simp_all add: leaveTrail_def Let_def)

lemma stepProjectile_fields:
  "score st \<le> score (snd (stepProjectile env now dt p st))"
  "gameOver (snd (stepProjectile env now dt p st)) = gameOver st"
  "endGames (snd (stepProjectile env now dt p st)) = endGames st"
proof -
  have a: "score st \<le> score (addBubbleAt env now q tx ty (leaveTrail now dt p st))"
    for q tx ty
    using addBubbleAt_fields(1)[of "leaveTrail now dt p st" env now q tx ty]
    by (simp add: leaveTrail_fields)
  show "score st \<le> score (snd (stepProjectile env now dt p st))"
    by (simp add: stepProjectile_def Let_def split_beta leaveTrail_fields a split: option.split)
  show "gameOver (snd (stepProjectile env now dt p st)) = gameOver st"
    by (simp add: stepProjectile_def Let_def split_beta leaveTrail_fields addBubbleAt_fields
          split: option.split)
  show "endGames (snd (stepProjectile env now dt p st)) = endGames st"
    by (simp add: stepProjectile_def Let_def split_beta leaveTrail_fields addBubbleAt_fields
          split: option.split)
qed

lemma moveProjectiles_score:
  "score st \<le> score (snd (moveProjectiles env now dt ps st))"
proof (induction ps arbitrary: st)
  case Nil
  show ?case by simp
next
  case (Cons p ps)
  have "score st \<le> score (snd (stepProjectile env now dt p st))"
    by (rule stepProjectile_fields(1))
  also have "\<dots> \<le> score (snd (moveProjectiles env now dt ps (snd (stepProjectile env now dt p st))))"
    by (rule Cons.IH)
  finally show ?case by (simp add: split_beta Let_def)
qed

lemma moveProjectiles_fields:
  "gameOver (snd (moveProjectiles env now dt ps st)) = gameOver st"
  "endGames (snd (moveProjectiles env now dt ps st)) = endGames st"
  by (induction ps arbitrary: st) (simp_all add: split_beta Let_def stepProjectile_fields)

lemma advanceProjectiles_fields:
  "score st \<le> score (advanceProjectiles env now dt st)"
  "gameOver (advanceProjectiles env now dt st) = gameOver st"
  "endGames (advanceProjectiles env now dt st) = endGames st"
  by (simp_all add: advanceProjectiles_def split_beta Let_def moveProjectiles_fields
        moveProjectiles_score)

lemma advanceEffects_fields:
  "score (advanceEffects env now dt st) = score st"
  "gameOver (advanceEffects env now dt st) = gameOver st"
  "endGames (advanceEffects env now dt st) = endGames st"
  "grid (advanceEffects env now dt st) = grid st"
  by (simp_all add: advanceEffects_def)

lemma rowPressure_fields:
  "score (rowPressure env dt st) = score st"
  "gameOver (rowPressure env dt st) = gameOver st"
  "endGames (rowPressure env dt st) = endGames st"
  by (simp_all add: rowPressure_def pushRow_def Let_def)

lemma beforeChecks_fields:
  "score st \<le> score (beforeChecks env now dt st)"
  "gameOver (beforeChecks env now dt st) = gameOver st"
  "endGames (beforeChecks env now dt st) = endGames st"
proof -
  let ?st0 = "st\<lparr>shooter := (shooter st)\<lparr>s_angle := s_angle (shooter st) +
      (s_targetAngle (shooter st) - s_angle (shooter st)) * aimDamping\<rparr>\<rparr>"
  have "score ?st0 \<le> score (advanceProjectiles env now dt ?st0)"
    by (rule advanceProjectiles_fields)
  then show "score st \<le> score (beforeChecks env now dt st)"
    by (simp add: beforeChecks_def Let_def rowPressure_fields advanceEffects_fields)
  show "gameOver (beforeChecks env now dt st) = gameOver st"
    by (simp add: beforeChecks_def Let_def rowPressure_fields advanceEffects_fields
          advanceProjectiles_fields)
  show "endGames (beforeChecks env now dt st) = endGames st"
    by (simp add: beforeChecks_def Let_def rowPressure_fields advanceEffects_fields
          advanceProjectiles_fields)
qed

lemma endGame_fields:
  "score (endGame w st) = score st"
  "gameOver (endGame w st) = gameOver st"
  "endGames (endGame w st) = endGames st @ [w]"
  "grid (endGame w st) = grid st"
  by (simp_all add: endGame_def updateHighScore_fields)

lemma winLose_score: "score (winLose env st) = score st"
  by (simp add: winLose_def Let_def endGame_fields)

lemma winLose_win:
  assumes "\<not> gameOver st" "list_all (\<lambda>r. length r = 0) (grid st)"
  shows "gameOver (winLose env st)" "endGames (winLose env st) = endGames st @ [True]"
  using assms by (simp_all add: winLose_def Let_def endGame_fields)

lemma winLose_once:
  assumes "\<not> gameOver st"
  shows "(endGames (winLose env st) = endGames st \<and> \<not> gameOver (winLose env st))
       \<or> (\<exists>w. endGames (winLose env st) = endGames st @ [w] \<and> gameOver (winLose env st))"
  using assms by (auto simp: winLose_def Let_def endGame_fields)

lemma winLose_over: "gameOver st \<Longrightarrow> winLose env st = st"
  by (simp add: winLose_def Let_def)

lemma update_score: "score st \<le> score (update env now dt st)"
  by (simp add: update_def winLose_score beforeChecks_fields)

lemma update_once:
  assumes "\<not> gameOver st"
  shows "(endGames (update env now dt st) = endGames st \<and> \<not> gameOver (update env now dt st))
       \<or> (\<exists>w. endGames (update env now dt st) = endGames st @ [w] \<and> gameOver (update env now dt st))"
  using winLose_once[of "beforeChecks env now dt st" env] assms
  by (simp add: update_def beforeChecks_fields)

lemma gameLoop_over: "gameOver st \<Longrightarrow> gameLoop env now ts st = st\<lparr>lastTime := ts\<rparr>"
  by (simp add: gameLoop_def Let_def)

lemma gameLoop_score: "score st \<le> score (gameLoop env now ts st)"
proof -
  have "score (st\<lparr>lastTime := ts\<rparr>) \<le> score (update env now dt (st\<lparr>lastTime := ts\<rparr>))" for dt
    by (rule update_score)
  then show ?thesis by (auto simp: gameLoop_def Let_def)
qed

lemma gameLoop_once:
  assumes "\<not> gameOver st"
  shows "(endGames (gameLoop env now ts st) = endGames st \<and> \<not> gameOver (gameLoop env now ts st))
       \<or> (\<exists>w. endGames (gameLoop env now ts st) = endGames st @ [w] \<and> gameOver (gameLoop env now ts st))"
proof -
  have "(endGames (update env now dt (st\<lparr>lastTime := ts\<rparr>)) = endGames st
          \<and> \<not> gameOver (update env now dt (st\<lparr>lastTime := ts\<rparr>)))
       \<or> (\<exists>w. endGames (update env now dt (st\<lparr>lastTime := ts\<rparr>)) = endGames st @ [w]
          \<and> gameOver (update env now dt (st\<lparr>lastTime := ts\<rparr>)))" for dt
    using update_once[of "st\<lparr>lastTime := ts\<rparr>" env now dt] assms by simp
  then show ?thesis using assms by (auto simp: gameLoop_def Let_def)
qed

lemma aimAt_fields:
  "score (aimAt px py st) = score st"
  "gameOver (aimAt px py st) = gameOver st"
  "endGames (aimAt px py st) = endGames st"
  "overlayShown (aimAt px py st) = overlayShown st"
  by (simp_all add: aimAt_def Let_def)

lemma fire_fields:
  "score (fire env now st) = score st"
  "gameOver (fire env now st) = gameOver st"
  "endGames (fire env now st) = endGames st"
  by (simp_all add: fire_def newProjectile_def Let_def split_beta)

lemma fire_over: "gameOver st \<Longrightarrow> fire env now st = st"
  by (simp add: fire_def)

lemma startGame_score: "score (startGame env st) = 0"
  by (simp add: startGame_def initGrid_def Let_def split_beta)

lemma handle_score: "e \<noteq> StartGame \<Longrightarrow> score st \<le> score (handle env e st)"
  by (cases e) (simp_all add: gameLoop_score aimAt_fields fire_fields)

lemma run_score: "StartGame \<notin> set evs \<Longrightarrow> score st \<le> score (run env evs st)"
proof (induction evs arbitrary: st)
  case Nil
  show ?case by (simp add: run_def)
next
  case (Cons e evs)
  then have "score st \<le> score (handle env e st)" by (auto intro: handle_score)
  also have "\<dots> \<le> score (run env evs (handle env e st))"
    using Cons by simp
  finally show ?case by (simp add: run_def)
qed


lemma length_concat_filter:
  "length (concat (map (filter (\<lambda>b. \<not> P b)) g)) + length (filter P (concat g)) = length (concat g)"
  by (induction g) (simp_all add: sum_length_filter_compl algebra_simps)

lemma floatingCheck_dropped:
  "int (length (filter (floats (connected_set (grid st))) (concat (grid st)))) =
     int (length (concat (grid st))) - int (length (concat (grid (floatingCheck env now st))))"
  using length_concat_filter[of "floats (connected_set (grid st))" "grid st"]
  by (simp add: floatingCheck_grid)

text \<open>
  C10. Through any sequence of frames, mouse moves, clicks and touches that contains no
  start of a new game, the score never goes down. A frame, a placement, a pop and a drop
  leave it or raise it; firing leaves it. The pop check adds 10 per bubble of the cluster
  when the cluster reaches the minimum size and nothing otherwise; the floating check adds 20
  per bubble it takes out of the grid; \<^verbatim>\<open>startGame\<close> sets the score to 0.
\<close>

theorem score_monotone:
  "(StartGame \<notin> set evs \<longrightarrow> score st \<le> score (run env evs st))
   \<and> score st \<le> score (gameLoop env now ts st)
   \<and> score (fire env now st) = score st
   \<and> score st \<le> score (addBubbleAt env now p tx ty st)
   \<and> score (clusterCheck env now origin st) =
       score st + (if minCluster \<le> length (cluster_of (grid st) origin)
                   then 10 * int (length (cluster_of (grid st) origin)) else 0)
   \<and> score (floatingCheck env now st) =
       score st + 20 * (int (length (concat (grid st)))
                        - int (length (concat (grid (floatingCheck env now st)))))
   \<and> score (startGame env st) = 0"
proof -
  have "score (floatingCheck env now st) =
       score st + 20 * (int (length (concat (grid st)))
                        - int (length (concat (grid (floatingCheck env now st)))))"
    unfolding floatingCheck_dropped[symmetric] by (rule floatingCheck_score)
  moreover have "score (clusterCheck env now origin st) =
       score st + (if minCluster \<le> length (cluster_of (grid st) origin)
                   then 10 * int (length (cluster_of (grid st) origin)) else 0)"
    by (simp add: clusterCheck_score)
  ultimately show ?thesis
    using run_score[of evs st env] gameLoop_score[of st env now ts] fire_fields(1)[of env now st]
      addBubbleAt_fields(1)[of st env now p tx ty] startGame_score[of env st]
    by blast
qed

theorem score_monotone_witness:
  "StartGame \<notin> set [Click 0, Frame 16 16, MouseMove 100 100]
   \<and> score (state_of grid_c) \<le> score (run env_a [Click 0, Frame 16 16, MouseMove 100 100] (state_of grid_c))
   \<and> score (clusterCheck env_a 0 (newBubble 0 1 ''#60a5fa'') (state_of grid_c)) = 30"
proof -
  have h: "StartGame \<notin> set [Click 0, Frame 16 16, MouseMove 100 100]" by simp
  have s: "score (state_of grid_c) = 0" "grid (state_of grid_c) = grid_c" by (simp_all add: state_of_def)
  from score_monotone[of "[Click 0, Frame 16 16, MouseMove 100 100]" "state_of grid_c" env_a
      0 0 _ _ _ "newBubble 0 1 ''#60a5fa''"] h
  show ?thesis by (simp add: s cluster_of_grid_c minCluster_def)
qed

subsection \<open>The end of a game\<close>

text \<open>
  Two states that differ at most in \<^verbatim>\<open>lastTime\<close> and in the shooter: the second, with these
  two fields put back, is the first.
\<close>

lemma frozen_trans:
  assumes "b\<lparr>lastTime := lastTime a, shooter := shooter a\<rparr> = a"
    and "c\<lparr>lastTime := lastTime b, shooter := shooter b\<rparr> = b"
  shows "c\<lparr>lastTime := lastTime a, shooter := shooter a\<rparr> = a"
proof -
  have "c\<lparr>lastTime := lastTime a, shooter := shooter a\<rparr> =
        (c\<lparr>lastTime := lastTime b, shooter := shooter b\<rparr>)\<lparr>lastTime := lastTime a, shooter := shooter a\<rparr>"
    by simp
  also have "\<dots> = b\<lparr>lastTime := lastTime a, shooter := shooter a\<rparr>"
    by (simp only: assms(2))
  also have "\<dots> = a" by (rule assms(1))
  finally show ?thesis .
qed

lemma frozen_eq:
  assumes "b\<lparr>lastTime := lastTime a, shooter := shooter a\<rparr> = a"
  shows "b = a\<lparr>lastTime := lastTime b, shooter := shooter b\<rparr>"
proof -
  have "a\<lparr>lastTime := lastTime b, shooter := shooter b\<rparr> =
        (b\<lparr>lastTime := lastTime a, shooter := shooter a\<rparr>)\<lparr>lastTime := lastTime b, shooter := shooter b\<rparr>"
    by (simp only: assms)
  then show ?thesis by simp
qed

lemma frozen_fields:
  assumes "b\<lparr>lastTime := lastTime a, shooter := shooter a\<rparr> = a"
  shows "gameOver b = gameOver a" "endGames b = endGames a"
proof -
  have "gameOver (b\<lparr>lastTime := lastTime a, shooter := shooter a\<rparr>) = gameOver a"
    "endGames (b\<lparr>lastTime := lastTime a, shooter := shooter a\<rparr>) = endGames a"
    by (simp_all only: assms)
  then show "gameOver b = gameOver a" "endGames b = endGames a" by simp_all
qed

lemma handle_over:
  assumes "gameOver st" "e \<noteq> StartGame"
  shows "(handle env e st)\<lparr>lastTime := lastTime st, shooter := shooter st\<rparr> = st"
proof (cases e)
  case (Frame now ts)
  then show ?thesis using assms by (simp add: gameLoop_over)
next
  case (MouseMove px py)
  then show ?thesis by (simp add: aimAt_def Let_def)
next
  case (Click now)
  then show ?thesis using assms by (simp add: fire_over)
next
  case (TouchStart now px py)
  have "fire env now (aimAt px py st) = aimAt px py st"
    using assms by (simp add: fire_over aimAt_fields)
  then show ?thesis using TouchStart by (simp add: aimAt_def Let_def)
next
  case StartGame
  with assms show ?thesis by simp
qed

lemma run_over:
  "gameOver st \<Longrightarrow> StartGame \<notin> set evs \<Longrightarrow>
     (run env evs st)\<lparr>lastTime := lastTime st, shooter := shooter st\<rparr> = st"
proof (induction evs arbitrary: st)
  case Nil
  show ?case by (simp add: run_def)
next
  case (Cons e evs)
  let ?st1 = "handle env e st"
  from Cons.prems have f: "?st1\<lparr>lastTime := lastTime st, shooter := shooter st\<rparr> = st"
    by (auto intro: handle_over)
  then have "gameOver ?st1" using Cons.prems(1) frozen_fields(1)[OF f] by simp
  then have "(run env evs ?st1)\<lparr>lastTime := lastTime ?st1, shooter := shooter ?st1\<rparr> = ?st1"
    using Cons by simp
  with f have "(run env evs ?st1)\<lparr>lastTime := lastTime st, shooter := shooter st\<rparr> = st"
    by (rule frozen_trans)
  then show ?case by (simp add: run_def)
qed

lemma handle_once:
  assumes "\<not> gameOver st" "e \<noteq> StartGame"
  shows "(endGames (handle env e st) = endGames st \<and> \<not> gameOver (handle env e st))
       \<or> (\<exists>w. endGames (handle env e st) = endGames st @ [w] \<and> gameOver (handle env e st))"
  using assms gameLoop_once[of st env]
  by (cases e) (simp_all add: aimAt_fields fire_fields)

lemma run_once:
  "\<not> gameOver st \<Longrightarrow> StartGame \<notin> set evs \<Longrightarrow>
     (endGames (run env evs st) = endGames st \<and> \<not> gameOver (run env evs st))
   \<or> (\<exists>w. endGames (run env evs st) = endGames st @ [w] \<and> gameOver (run env evs st))"
proof (induction evs arbitrary: st)
  case Nil
  then show ?case by (simp add: run_def)
next
  case (Cons e evs)
  let ?st1 = "handle env e st"
  have r: "run env (e # evs) st = run env evs ?st1" by (simp add: run_def)
  from Cons.prems have e: "e \<noteq> StartGame" and evs: "StartGame \<notin> set evs" by auto
  from handle_once[OF Cons.prems(1) e, of env]
  consider (run) "endGames ?st1 = endGames st" "\<not> gameOver ?st1"
    | (over) w where "endGames ?st1 = endGames st @ [w]" "gameOver ?st1"
    by blast
  then show ?case
  proof cases
    case run
    from Cons.IH[OF run(2) evs] run(1) show ?thesis unfolding r by simp
  next
    case over
    note f = run_over[OF over(2) evs, of env]
    have "endGames (run env evs ?st1) = endGames ?st1" "gameOver (run env evs ?st1)"
      using over(2) frozen_fields[OF f] by simp_all
    with over(1) show ?thesis unfolding r by simp
  qed
qed

text \<open>
  C7. If the game is running and all rows are empty when \<^verbatim>\<open>update\<close> reaches the win test,
  the game is over after that call and \<^verbatim>\<open>endGame(true)\<close> has been called exactly once in it,
  with no other call of \<^verbatim>\<open>endGame\<close>. Once the game is over, \<^verbatim>\<open>gameLoop\<close> changes nothing but
  the time stamp \<^verbatim>\<open>lastTime\<close>, and any sequence of frames and pointer events without a start
  of a new game leaves every field but \<^verbatim>\<open>lastTime\<close> and the shooter as it was, so no further
  \<^verbatim>\<open>endGame\<close> call is made. From a running state, such a sequence makes at most one
  \<^verbatim>\<open>endGame\<close> call, and the game is over exactly when it made one.
\<close>

theorem win_once_terminal:
  "(\<not> gameOver st \<and> list_all (\<lambda>r. length r = 0) (grid (beforeChecks env now dt st))
      \<longrightarrow> gameOver (update env now dt st) \<and> endGames (update env now dt st) = endGames st @ [True])
   \<and> (gameOver st \<longrightarrow> gameLoop env now ts st = st\<lparr>lastTime := ts\<rparr>)
   \<and> (gameOver st \<and> StartGame \<notin> set evs
      \<longrightarrow> run env evs st = st\<lparr>lastTime := lastTime (run env evs st), shooter := shooter (run env evs st)\<rparr>)
   \<and> (\<not> gameOver st \<and> StartGame \<notin> set evs
      \<longrightarrow> (endGames (run env evs st) = endGames st \<and> \<not> gameOver (run env evs st))
        \<or> (\<exists>w. endGames (run env evs st) = endGames st @ [w] \<and> gameOver (run env evs st)))"
proof -
  have a: "gameOver (update env now dt st) \<and> endGames (update env now dt st) = endGames st @ [True]"
    if "\<not> gameOver st" "list_all (\<lambda>r. length r = 0) (grid (beforeChecks env now dt st))"
    using winLose_win[of "beforeChecks env now dt st" env] that
    by (simp add: update_def beforeChecks_fields)
  have c: "run env evs st = st\<lparr>lastTime := lastTime (run env evs st), shooter := shooter (run env evs st)\<rparr>"
    if "gameOver st" "StartGame \<notin> set evs"
    using run_over[OF that, of env] by (rule frozen_eq)
  from a c gameLoop_over[of st env now ts] run_once[of st evs env] show ?thesis
    by blast
qed


lemma beforeChecks_empty:
  "grid (beforeChecks env_a 16 (2 / 125) (state_of [])) = []"
  by (simp add: beforeChecks_def Let_def rowPressure_def advanceEffects_def
        advanceProjectiles_def state_of_def spawnRowInterval_def)

theorem win_once_terminal_witness:
  "\<not> gameOver (state_of [])
   \<and> list_all (\<lambda>r. length r = 0) (grid (beforeChecks env_a 16 (2 / 125) (state_of [])))
   \<and> gameOver (update env_a 16 (2 / 125) (state_of []))
   \<and> endGames (update env_a 16 (2 / 125) (state_of [])) = [True]
   \<and> gameLoop env_a 32 32 (update env_a 16 (2 / 125) (state_of [])) =
       (update env_a 16 (2 / 125) (state_of []))\<lparr>lastTime := 32\<rparr>
   \<and> StartGame \<notin> set [Frame 32 32, Click 40, Frame 48 48]
   \<and> endGames (run env_a [Frame 32 32, Click 40, Frame 48 48]
        (update env_a 16 (2 / 125) (state_of []))) = [True]
   \<and> length (endGames (run env_a [Frame 32 32, Click 40, Frame 48 48] (state_of []))) \<le> 1"
proof -
  let ?st = "state_of []"
  let ?won = "update env_a 16 (2 / 125) ?st"
  let ?evs = "[Frame 32 32, Click 40, Frame 48 48]"
  have h: "\<not> gameOver ?st" "endGames ?st = []" by (simp_all add: state_of_def)
  have e: "list_all (\<lambda>r. length r = 0) (grid (beforeChecks env_a 16 (2 / 125) ?st))"
    by (simp add: beforeChecks_empty)
  have n: "StartGame \<notin> set ?evs" by simp
  note first = win_once_terminal[of ?st env_a 16 "2 / 125" 32 ?evs]
  from first h e have w: "gameOver ?won" "endGames ?won = [True]" by simp_all
  note second = win_once_terminal[of ?won env_a 32 "2 / 125" 32 ?evs]
  from second w n have l: "gameLoop env_a 32 32 ?won = ?won\<lparr>lastTime := 32\<rparr>"
    and r: "run env_a ?evs ?won =
        ?won\<lparr>lastTime := lastTime (run env_a ?evs ?won), shooter := shooter (run env_a ?evs ?won)\<rparr>"
    by blast+
  have "endGames (run env_a ?evs ?won) =
        endGames (?won\<lparr>lastTime := lastTime (run env_a ?evs ?won),
                       shooter := shooter (run env_a ?evs ?won)\<rparr>)"
    by (subst r) (rule refl)
  then have k: "endGames (run env_a ?evs ?won) = [True]" by (simp add: w)
  from first h n have
    "(endGames (run env_a ?evs ?st) = [] \<and> \<not> gameOver (run env_a ?evs ?st))
      \<or> (\<exists>w. endGames (run env_a ?evs ?st) = [w] \<and> gameOver (run env_a ?evs ?st))"
    by simp
  then have o: "length (endGames (run env_a ?evs ?st)) \<le> 1" by auto
  from h e w l n k o show ?thesis by blast
qed

section \<open>The floating check run twice\<close>

lemma connected_dfs_subset:
  "vis \<union> key ` set stack \<subseteq> connected_dfs g vis stack"
  by (induction g vis stack rule: connected_dfs.induct) auto

lemma find_filter:
  "(\<And>x. find P xs = Some x \<Longrightarrow> Q x) \<Longrightarrow> find P (filter Q xs) = find P xs"
  by (induction xs) auto

lemma map_filter_cong_set:
  "(\<And>d. d \<in> set ds \<Longrightarrow> f d = h d) \<Longrightarrow> List.map_filter f ds = List.map_filter h ds"
  by (induction ds) (auto simp: List.map_filter_def)

lemma neighbors_filter:
  assumes "\<And>n. n \<in> set (neighbors g b) \<Longrightarrow> Q n"
  shows "neighbors (map (filter Q) g) b = neighbors g b"
proof (cases "b_row b < 0 \<or> int (length g) \<le> b_row b")
  case True
  then show ?thesis by (simp add: neighbors_def)
next
  case False
  let ?h = "\<lambda>(dr, dc). let nr = b_row b + dr; nc = b_c b + dc
           in if nr < 0 \<or> int (length g) \<le> nr then None
              else find (\<lambda>x. b_c x = nc) (g ! nat nr)"
  let ?h' = "\<lambda>(dr, dc). let nr = b_row b + dr; nc = b_c b + dc
           in if nr < 0 \<or> int (length (map (filter Q) g)) \<le> nr then None
              else find (\<lambda>x. b_c x = nc) (map (filter Q) g ! nat nr)"
  have n: "neighbors g b = List.map_filter ?h (deltas (b_row b))"
    using False by (simp add: neighbors_def)
  have "?h' d = ?h d" if d: "d \<in> set (deltas (b_row b))" for d
  proof -
    obtain dr dc where dd: "d = (dr, dc)" by (cases d)
    show ?thesis
    proof (cases "b_row b + dr < 0 \<or> int (length g) \<le> b_row b + dr")
      case True
      then show ?thesis by (simp add: dd)
    next
      case inr: False
      have "Q x" if "find (\<lambda>x. b_c x = b_c b + dc) (g ! nat (b_row b + dr)) = Some x" for x
      proof -
        have "?h d = Some x" using that inr by (simp add: dd)
        then have "x \<in> set (neighbors g b)" using d unfolding n set_map_filter_eq by blast
        then show ?thesis by (rule assms)
      qed
      then have "find (\<lambda>x. b_c x = b_c b + dc) (filter Q (g ! nat (b_row b + dr))) =
                 find (\<lambda>x. b_c x = b_c b + dc) (g ! nat (b_row b + dr))"
        by (rule find_filter)
      moreover have "nat (b_row b + dr) < length g" using inr by linarith
      ultimately show ?thesis using inr by (simp add: dd)
    qed
  qed
  then have "List.map_filter ?h' (deltas (b_row b)) = List.map_filter ?h (deltas (b_row b))"
    by (rule map_filter_cong_set)
  then show ?thesis using False by (simp add: neighbors_def)
qed

lemma connected_dfs_filter:
  "(\<And>b. key b \<in> connected_dfs g vis stack \<Longrightarrow> Q b) \<Longrightarrow>
     connected_dfs (map (filter Q) g) vis stack = connected_dfs g vis stack"
proof (induction g vis stack rule: connected_dfs.induct)
  case (1 g vis)
  show ?case by simp
next
  case (2 g vis b stack)
  show ?case
  proof (cases "key b \<in> vis")
    case True
    with 2 show ?thesis by simp
  next
    case False
    let ?res = "connected_dfs g (insert (key b) vis) (neighbors g b @ stack)"
    have res: "connected_dfs g vis (b # stack) = ?res" using False by simp
    have "Q n" if "n \<in> set (neighbors g b)" for n
    proof -
      have "key n \<in> ?res" using connected_dfs_subset[of "insert (key b) vis" "neighbors g b @ stack" g] that
        by auto
      then show ?thesis using "2.prems" res by simp
    qed
    then have nb: "neighbors (map (filter Q) g) b = neighbors g b" by (rule neighbors_filter)
    have "connected_dfs (map (filter Q) g) (insert (key b) vis) (neighbors g b @ stack) = ?res"
      using "2.IH"(2)[OF False] "2.prems" res by simp
    then show ?thesis using False nb by simp
  qed
qed

lemma connected_set_filter:
  assumes "\<And>b. key b \<in> connected_set g \<Longrightarrow> Q b"
  shows "connected_set (map (filter Q) g) = connected_set g"
proof (cases g)
  case Nil
  then show ?thesis by (simp add: connected_set_worklist)
next
  case (Cons r0 rs)
  have c: "connected_set g = connected_dfs g {} r0" by (simp add: connected_set_worklist Cons)
  have "Q b" if "b \<in> set r0" for b
  proof -
    have "key b \<in> connected_dfs g {} r0" using connected_dfs_subset[of "{}" r0 g] that by auto
    then show ?thesis using assms c by simp
  qed
  then have r0: "filter Q r0 = r0" by (simp add: filter_id_conv)
  have "connected_dfs (map (filter Q) g) {} r0 = connected_dfs g {} r0"
    using assms c by (intro connected_dfs_filter) simp
  then show ?thesis using r0 c by (simp add: connected_set_worklist Cons)
qed

lemma dropRow_none:
  "(\<And>b. b \<in> set r \<Longrightarrow> \<not> floats conn b) \<Longrightarrow> dropRow env now conn r st = (r, st)"
  by (induction r) simp_all

lemma dropRows_none:
  "(\<And>b. b \<in> set (concat g) \<Longrightarrow> \<not> floats conn b) \<Longrightarrow> dropRows env now conn g st = (g, st)"
  by (induction g) (simp_all add: dropRow_none)

lemma updateHighScore_idem: "updateHighScore (updateHighScore st) = updateHighScore st"
  by (simp add: updateHighScore_def)

lemma floatingCheck_settled:
  assumes "\<And>b. b \<in> set (concat (grid st)) \<Longrightarrow> \<not> floats (connected_set (grid st)) b"
  shows "floatingCheck env now st = updateHighScore st"
  using dropRows_none[of "grid st" "connected_set (grid st)" env now st] assms
  by (simp add: floatingCheck_def Let_def)

lemma floatingCheck_idem:
  "floatingCheck env now' (floatingCheck env now st) = floatingCheck env now st"
proof -
  let ?V = "connected_set (grid st)"
  let ?Q = "\<lambda>b. \<not> floats ?V b"
  let ?st' = "floatingCheck env now st"
  have g': "grid ?st' = map (filter ?Q) (grid st)" by (rule floatingCheck_grid)
  have V': "connected_set (map (filter ?Q) (grid st)) = ?V"
    by (rule connected_set_filter) (simp add: floats_def)
  have "\<not> floats (connected_set (grid ?st')) b" if "b \<in> set (concat (grid ?st'))" for b
    using that unfolding g' V' by auto
  then have "floatingCheck env now' ?st' = updateHighScore ?st'"
    by (rule floatingCheck_settled)
  also have "\<dots> = ?st'"
    by (simp add: floatingCheck_def Let_def split_beta updateHighScore_idem)
  finally show ?thesis .
qed


lemma neighbors_same_slot:
  "b_row b' = b_row b \<Longrightarrow> b_c b' = b_c b \<Longrightarrow> neighbors g b' = neighbors g b"
  by (simp add: neighbors_def)

lemma connected_dfs_map:
  assumes f: "\<And>x. b_row (f x) = b_row x" "\<And>x. b_c (f x) = b_c x"
  shows "connected_dfs (map (map f) g) vis (map f stack) = connected_dfs g vis stack"
proof (induction g vis stack rule: connected_dfs.induct)
  case (1 g vis)
  show ?case by simp
next
  case (2 g vis b stack)
  have k: "key (f b) = key b" by (simp add: key_def f)
  have "neighbors (map (map f) g) (f b) = neighbors (map (map f) g) b"
    by (rule neighbors_same_slot) (simp_all add: f)
  also have "\<dots> = map f (neighbors g b)"
    by (rule neighbors_map) (rule f)
  finally have nb: "neighbors (map (map f) g) (f b) = map f (neighbors g b)" .
  show ?case
  proof (cases "key b \<in> vis")
    case True
    with 2 k show ?thesis by simp
  next
    case False
    from "2.IH"(2)[OF False] show ?thesis using False k nb by simp
  qed
qed

lemma connected_set_map:
  assumes "\<And>x. b_row (f x) = b_row x" "\<And>x. b_c (f x) = b_c x"
  shows "connected_set (map (map f) g) = connected_set g"
proof (cases g)
  case Nil
  then show ?thesis by (simp add: connected_set_worklist)
next
  case (Cons r0 rs)
  from connected_dfs_map[of f g "{}" r0, OF assms] show ?thesis
    by (simp add: connected_set_worklist Cons)
qed

lemma floatingCheck_p1_idem:
  "floatingCheck_p1 (floatingCheck_p1 st) = floatingCheck_p1 st"
proof -
  let ?V = "connected_set (grid st)"
  let ?f = "\<lambda>b. if floats ?V b then b\<lparr>b_removing := True\<rparr> else b"
  let ?st' = "floatingCheck_p1 st"
  have g': "grid ?st' = map (map ?f) (grid st)" by (simp add: floatingCheck_p1_def Let_def)
  have V': "connected_set (map (map ?f) (grid st)) = ?V"
    by (rule connected_set_map) simp_all
  have nf: "\<not> floats ?V (?f b)" for b by (simp add: floats_def key_def)
  have same: "map (map (\<lambda>b. if floats ?V b then b\<lparr>b_removing := True\<rparr> else b)) (map (map ?f) (grid st))
      = map (map ?f) (grid st)"
    by (simp add: comp_def nf)
  have "\<not> floats ?V x" if "x \<in> set (concat (map (map ?f) (grid st)))" for x
  proof -
    have "concat (map (map ?f) (grid st)) = map ?f (concat (grid st))"
      by (simp only: map_concat)
    with that have "x \<in> ?f ` set (concat (grid st))" by (simp only: set_map)
    then obtain b where "x = ?f b" by (rule imageE)
    then show ?thesis using nf[of b] by simp
  qed
  then have none: "filter (floats ?V) (concat (map (map ?f) (grid st))) = []"
    unfolding filter_empty_conv by blast
  have "floatingCheck_p1 ?st' =
      ?st'\<lparr>grid := map (map (\<lambda>b. if floats ?V b then b\<lparr>b_removing := True\<rparr> else b)) (grid ?st'),
           score := score ?st' + 20 * int (length (filter (floats ?V) (concat (grid ?st'))))\<rparr>"
    unfolding floatingCheck_p1_def[of ?st'] Let_def g' V' by (simp add: g')
  also have "\<dots> = ?st'\<lparr>grid := grid ?st', score := score ?st'\<rparr>"
    unfolding g' same none by simp
  also have "\<dots> = ?st'" by simp
  finally show ?thesis .
qed

text \<open>
  Running the floating check a second time, straight after the first, returns the state the
  first run produced: no further bubble is marked or removed, no further falling bubble or
  particle is spawned and the score stays. This holds for every state, in \<^verbatim>\<open>src/game.js\<close>
  (where the check splices) and in the second source file (where it only marks). A run of the
  floating check scores 20 for each bubble that is neither connected nor already flagged, and
  nothing for a bubble that carries the flag. The pop check has no such test of the flag; what
  follows from that is in the section on popped bubbles that are scored again.
\<close>

theorem floating_check_idempotent:
  "floatingCheck env now' (floatingCheck env now st) = floatingCheck env now st
   \<and> floatingCheck_p1 (floatingCheck_p1 st) = floatingCheck_p1 st
   \<and> score (floatingCheck env now st) =
       score st + 20 * int (length (filter (\<lambda>b. key b \<notin> connected_set (grid st) \<and> \<not> b_removing b)
                                     (concat (grid st))))
   \<and> score (floatingCheck_p1 st) =
       score st + 20 * int (length (filter (\<lambda>b. key b \<notin> connected_set (grid st) \<and> \<not> b_removing b)
                                     (concat (grid st))))"
proof -
  have f: "floats (connected_set (grid st)) =
      (\<lambda>b. key b \<notin> connected_set (grid st) \<and> \<not> b_removing b)"
    by (simp add: fun_eq_iff floats_def)
  have "score (floatingCheck_p1 st) =
       score st + 20 * int (length (filter (floats (connected_set (grid st))) (concat (grid st))))"
    by (simp add: floatingCheck_p1_def Let_def)
  with floatingCheck_score[of env now st] floatingCheck_idem[of env now' now st]
    floatingCheck_p1_idem[of st]
  show ?thesis unfolding f by blast
qed


theorem floating_check_idempotent_witness:
  "grid (floatingCheck env_a 0 (state_of grid_d)) = [[newBubble 0 0 ''#60a5fa''], [], []]
   \<and> score (floatingCheck env_a 0 (state_of grid_d)) = 20
   \<and> floatingCheck env_a 5 (floatingCheck env_a 0 (state_of grid_d)) =
       floatingCheck env_a 0 (state_of grid_d)
   \<and> grid (floatingCheck_p1 (state_of grid_d)) =
       [[newBubble 0 0 ''#60a5fa''], [], [(newBubble 2 3 ''#f472b6'')\<lparr>b_removing := True\<rparr>]]
   \<and> floatingCheck_p1 (floatingCheck_p1 (state_of grid_d)) = floatingCheck_p1 (state_of grid_d)"
proof -
  have c: "connected_set grid_d = {(0, 0)}"
    by (simp add: connected_set_worklist neighbors_def deltas_def List.map_filter_def grid_d_def
          newBubble_def key_def)
  have g: "grid (state_of grid_d) = grid_d" "score (state_of grid_d) = 0"
    by (simp_all add: state_of_def)
  have 1: "grid (floatingCheck env_a 0 (state_of grid_d)) = [[newBubble 0 0 ''#60a5fa''], [], []]"
    unfolding floatingCheck_grid g c by (simp add: grid_d_def floats_def key_def newBubble_def)
  have 2: "score (floatingCheck env_a 0 (state_of grid_d)) = 20"
    unfolding floatingCheck_score g c by (simp add: grid_d_def floats_def key_def newBubble_def)
  have 3: "grid (floatingCheck_p1 (state_of grid_d)) =
       [[newBubble 0 0 ''#60a5fa''], [], [(newBubble 2 3 ''#f472b6'')\<lparr>b_removing := True\<rparr>]]"
    by (simp add: floatingCheck_p1_def Let_def g c) (simp add: grid_d_def floats_def key_def newBubble_def)
  from floating_check_idempotent[of env_a 5 0 "state_of grid_d"] 1 2 3 show ?thesis by simp
qed

section \<open>The pop check collects the same-colour component\<close>

lemma wf_grid_key_inj:
  assumes wf: "wf_grid g" and a: "a \<in> cells g" and b: "b \<in> cells g" and k: "key a = key b"
  shows "a = b"
proof -
  from a obtain i where i: "i < length g" "a \<in> set (g ! i)" by (auto simp: cells_iff)
  from b obtain j where j: "j < length g" "b \<in> set (g ! j)" by (auto simp: cells_iff)
  have "b_row a = int i" "b_row b = int j"
    using wf i j by (auto dest: wf_grid_row)
  with k have ij: "i = j" by (simp add: key_def)
  have "distinct (map b_c (g ! i))" using wf i(1) by (simp add: wf_grid_iff)
  then have "inj_on b_c (set (g ! i))" by (simp add: distinct_map)
  moreover have "b_c a = b_c b" using k by (simp add: key_def)
  ultimately show ?thesis using i(2) j(2) ij by (auto dest: inj_onD)
qed

lemma component_origin: "origin \<in> component g origin"
  by (simp add: component_def)

lemma component_step:
  assumes "a \<in> component g origin" "n \<in> set (neighbors g a)"
    "b_color a = b_color origin" "b_color n = b_color origin"
  shows "n \<in> component g origin"
proof -
  have "(a, n) \<in> same_color_link g (b_color origin)"
    using assms by (simp add: same_color_link_def)
  with assms(1) show ?thesis
    unfolding component_def by (auto intro: rtrancl_into_rtrancl)
qed

lemma component_color:
  assumes "b \<in> component g origin"
  shows "b_color b = b_color origin"
proof -
  from assms have "(origin, b) \<in> (same_color_link g (b_color origin))\<^sup>*"
    by (simp add: component_def)
  then show ?thesis
    by (induction rule: rtrancl_induct) (simp_all add: same_color_link_def)
qed

lemma component_cells:
  assumes "origin \<in> cells g" "b \<in> component g origin"
  shows "b \<in> cells g"
proof -
  from assms(2) have "(origin, b) \<in> (same_color_link g (b_color origin))\<^sup>*"
    by (simp add: component_def)
  then show ?thesis
  proof (induction rule: rtrancl_induct)
    case base
    show ?case by (rule assms(1))
  next
    case (step y z)
    then have "z \<in> set (neighbors g y)" by (simp add: same_color_link_def)
    then show ?case using neighbors_cells[of g y] by blast
  qed
qed

text \<open>The invariant holds at the start and is kept by each of the three steps.\<close>

lemma cluster_inv_start:
  "origin \<in> cells g \<Longrightarrow> cluster_inv g origin {} [] [origin]"
  by (simp add: cluster_inv_def component_origin)

lemma cluster_inv_seen:
  assumes "cluster_inv g origin vis cl (b # stack)" "key b \<in> vis"
  shows "cluster_inv g origin vis cl stack"
  using assms unfolding cluster_inv_def by auto

lemma cluster_inv_other:
  assumes wf: "wf_grid g"
    and inv: "cluster_inv g origin vis cl (b # stack)"
    and new: "key b \<notin> vis" and col: "b_color b \<noteq> b_color origin"
  shows "cluster_inv g origin (insert (key b) vis) cl stack"
proof -
  from inv have b: "b \<in> cells g" by (simp add: cluster_inv_def)
  have u: "c = b" if "c \<in> cells g" "key c = key b" for c
    using wf that(1) b that(2) by (rule wf_grid_key_inj)
  have o: "origin \<noteq> b \<or> key origin \<in> vis" using col by auto
  show ?thesis
    using inv col o unfolding cluster_inv_def
    by (intro conjI) (auto dest: u)
qed

lemma cluster_inv_expand:
  assumes wf: "wf_grid g"
    and inv: "cluster_inv g origin vis cl (b # stack)"
    and new: "key b \<notin> vis" and col: "b_color b = b_color origin"
  shows "cluster_inv g origin (insert (key b) vis) (cl @ [b]) (neighbors g b @ stack)"
proof -
  from inv have b: "b \<in> cells g" by (simp add: cluster_inv_def)
  from inv col have bc: "b \<in> component g origin" by (simp add: cluster_inv_def)
  have u: "c = b" if "c \<in> cells g" "key c = key b" for c
    using wf that(1) b that(2) by (rule wf_grid_key_inj)
  have nc: "n \<in> component g origin"
    if "n \<in> set (neighbors g b)" "b_color n = b_color origin" for n
    using bc that(1) col that(2) by (rule component_step)
  have 1: "set (neighbors g b @ stack) \<subseteq> cells g"
    using inv neighbors_cells[of g b] by (auto simp: cluster_inv_def)
  have 2: "set (cl @ [b]) \<subseteq> component g origin"
    using inv bc by (auto simp: cluster_inv_def)
  have 3: "\<forall>s \<in> set (neighbors g b @ stack). b_color s = b_color origin \<longrightarrow> s \<in> component g origin"
    using inv nc by (auto simp: cluster_inv_def)
  have 4: "key ` set (cl @ [b]) \<subseteq> insert (key b) vis"
    using inv by (auto simp: cluster_inv_def)
  have 5: "distinct (map key (cl @ [b]))"
    using inv new by (auto simp: cluster_inv_def)
  have 6: "\<forall>c \<in> cells g. key c \<in> insert (key b) vis \<longrightarrow> c \<in> set (cl @ [b]) \<or> b_color c \<noteq> b_color origin"
    using inv by (auto simp: cluster_inv_def dest: u)
  have 7: "\<forall>a \<in> set (cl @ [b]). \<forall>n \<in> set (neighbors g a).
             key n \<in> insert (key b) vis \<or> n \<in> set (neighbors g b @ stack)"
    using inv by (auto simp: cluster_inv_def)
  have 8: "key origin \<in> insert (key b) vis \<or> origin \<in> set (neighbors g b @ stack)"
    using inv by (auto simp: cluster_inv_def)
  from 1 2 3 4 5 6 7 8 show ?thesis unfolding cluster_inv_def by blast
qed

lemma cluster_dfs_inv:
  "wf_grid g \<Longrightarrow> tc = b_color origin \<Longrightarrow> cluster_inv g origin vis cl stack \<Longrightarrow>
     cluster_inv g origin (fst (cluster_dfs g tc vis cl stack))
       (snd (cluster_dfs g tc vis cl stack)) []"
proof (induction g tc vis cl stack rule: cluster_dfs.induct)
  case (1 g tc vis cl)
  then show ?case by simp
next
  case (2 g tc vis cl b stack)
  note wf = "2.prems"(1) and tc = "2.prems"(2) and inv = "2.prems"(3)
  show ?case
  proof (cases "key b \<in> vis")
    case True
    from "2.IH"(1)[OF True wf tc cluster_inv_seen[OF inv True]] True
    show ?thesis by simp
  next
    case new: False
    show ?thesis
    proof (cases "b_color b = tc")
      case True
      then have c: "b_color b = b_color origin" "\<not> b_color b \<noteq> tc" using tc by simp_all
      from "2.IH"(3)[OF new c(2) wf tc cluster_inv_expand[OF wf inv new c(1)]] True new
      show ?thesis by simp
    next
      case False
      then have c: "b_color b \<noteq> b_color origin" using tc by simp
      from "2.IH"(2)[OF new False wf tc cluster_inv_other[OF wf inv new c]] False new
      show ?thesis by simp
    qed
  qed
qed

text \<open>The array \<^verbatim>\<open>cluster\<close> holds the component, each member once.\<close>

lemma cluster_of_component:
  assumes wf: "wf_grid g" and o: "origin \<in> cells g"
  shows "set (cluster_of g origin) = component g origin"
    and "distinct (map key (cluster_of g origin))"
proof -
  let ?vis = "fst (cluster_dfs g (b_color origin) {} [] [origin])"
  let ?cl = "cluster_of g origin"
  have inv: "cluster_inv g origin ?vis ?cl []"
    unfolding cluster_of_worklist
    by (rule cluster_dfs_inv[OF wf refl cluster_inv_start[OF o]])
  then show "distinct (map key ?cl)" by (simp add: cluster_inv_def)
  from inv have sound: "set ?cl \<subseteq> component g origin" by (simp add: cluster_inv_def)
  from inv have seen: "\<And>b. b \<in> cells g \<Longrightarrow> key b \<in> ?vis \<Longrightarrow> b_color b = b_color origin \<Longrightarrow> b \<in> set ?cl"
    by (auto simp: cluster_inv_def)
  from inv have closed: "\<And>a n. a \<in> set ?cl \<Longrightarrow> n \<in> set (neighbors g a) \<Longrightarrow> key n \<in> ?vis"
    by (auto simp: cluster_inv_def)
  from inv have "key origin \<in> ?vis" by (simp add: cluster_inv_def)
  then have start: "origin \<in> set ?cl" using seen[OF o] by simp
  have "b \<in> set ?cl" if "b \<in> component g origin" for b
  proof -
    from that have "(origin, b) \<in> (same_color_link g (b_color origin))\<^sup>*"
      by (simp add: component_def)
    then show ?thesis
    proof (induction rule: rtrancl_induct)
      case base
      show ?case by (rule start)
    next
      case (step y z)
      then have n: "z \<in> set (neighbors g y)" and c: "b_color z = b_color origin"
        by (simp_all add: same_color_link_def)
      from closed[OF step.IH n] have "key z \<in> ?vis" .
      moreover have "z \<in> cells g" using n neighbors_cells[of g y] by blast
      ultimately show ?case using c by (intro seen)
    qed
  qed
  with sound show "set ?cl = component g origin" by blast
qed

lemma length_cluster_of:
  assumes "wf_grid g" "origin \<in> cells g"
  shows "length (cluster_of g origin) = card (component g origin)"
proof -
  from cluster_of_component(2)[OF assms] have "distinct (cluster_of g origin)"
    by (rule distinct_map[THEN iffD1, THEN conjunct1])
  then have "card (set (cluster_of g origin)) = length (cluster_of g origin)"
    by (rule distinct_card)
  then show ?thesis by (simp add: cluster_of_component(1)[OF assms])
qed


lemma fold_markRemoving:
  "fold (\<lambda>b. markRemoving (key b)) cl g =
     map (map (\<lambda>x. if key x \<in> key ` set cl then x\<lparr>b_removing := True\<rparr> else x)) g"
proof (induction cl arbitrary: g)
  case Nil
  show ?case by simp
next
  case (Cons b cl)
  have "(\<lambda>x. if key x \<in> key ` set cl then x\<lparr>b_removing := True\<rparr> else x) \<circ>
        (\<lambda>x. if key x = key b then x\<lparr>b_removing := True\<rparr> else x) =
        (\<lambda>x. if key x \<in> key ` set (b # cl) then x\<lparr>b_removing := True\<rparr> else x)"
    by (auto simp: fun_eq_iff key_def)
  moreover have "map (map f) (map (map h) g) = map (map (f \<circ> h)) g"
    for f h :: "bubble \<Rightarrow> bubble"
    by (induction g) simp_all
  ultimately have c: "map (map (\<lambda>x. if key x \<in> key ` set cl then x\<lparr>b_removing := True\<rparr> else x))
          (markRemoving (key b) g) =
        map (map (\<lambda>x. if key x \<in> key ` set (b # cl) then x\<lparr>b_removing := True\<rparr> else x)) g"
    unfolding markRemoving_def by (simp only:)
  have "fold (\<lambda>b. markRemoving (key b)) (b # cl) g =
        fold (\<lambda>b. markRemoving (key b)) cl (markRemoving (key b) g)"
    by simp
  also have "\<dots> = map (map (\<lambda>x. if key x \<in> key ` set cl then x\<lparr>b_removing := True\<rparr> else x))
          (markRemoving (key b) g)"
    by (rule Cons.IH)
  also note c
  finally show ?case .
qed

lemma mark_component:
  assumes wf: "wf_grid g" and o: "origin \<in> cells g"
  shows "fold (\<lambda>b. markRemoving (key b)) (cluster_of g origin) g =
     map (map (\<lambda>b. if b \<in> component g origin then b\<lparr>b_removing := True\<rparr> else b)) g"
proof -
  have "(key x \<in> key ` component g origin) = (x \<in> component g origin)"
    if "r \<in> set g" "x \<in> set r" for r x
  proof
    assume "key x \<in> key ` component g origin"
    then obtain c where c: "c \<in> component g origin" "key x = key c" by auto
    have "x \<in> cells g" using that by (auto simp: cells_def)
    moreover have "c \<in> cells g" using o c(1) by (rule component_cells)
    ultimately have "x = c" using c(2) by (intro wf_grid_key_inj[OF wf])
    with c(1) show "x \<in> component g origin" by simp
  qed simp
  then show ?thesis
    unfolding fold_markRemoving cluster_of_component(1)[OF wf o]
    by (intro map_cong refl) simp
qed

text \<open>
  C3. In a grid that satisfies the grid invariant, for a bubble \<open>origin\<close> of the grid (the
  bubble just placed), the array \<^verbatim>\<open>cluster\<close> that the pop check collects is the connected
  same-colour component of \<open>origin\<close>. When the component has at least 3 members, the check
  flags exactly its members and adds 10 times its size to the score; when it has fewer than 3
  (so also when it has exactly 2), the check changes nothing. Both source files agree on the
  grid and the score.
\<close>

theorem cluster_pop_threshold:
  assumes "wf_grid (grid st)" and "origin \<in> cells (grid st)"
  shows "set (cluster_of (grid st) origin) = component (grid st) origin
       \<and> (3 \<le> card (component (grid st) origin) \<longrightarrow>
            grid (clusterCheck env now origin st) =
              map (map (\<lambda>b. if b \<in> component (grid st) origin
                             then b\<lparr>b_removing := True\<rparr> else b)) (grid st)
          \<and> score (clusterCheck env now origin st) =
              score st + 10 * int (card (component (grid st) origin))
          \<and> clusterCheck_p1 origin st =
              st\<lparr>grid := map (map (\<lambda>b. if b \<in> component (grid st) origin
                                        then b\<lparr>b_removing := True\<rparr> else b)) (grid st),
                 score := score st + 10 * int (card (component (grid st) origin))\<rparr>)
       \<and> (card (component (grid st) origin) < 3 \<longrightarrow>
            clusterCheck env now origin st = st \<and> clusterCheck_p1 origin st = st)"
proof -
  note len = length_cluster_of[OF assms]
  note mark = mark_component[OF assms]
  have small: "clusterCheck env now origin st = st \<and> clusterCheck_p1 origin st = st"
    if "card (component (grid st) origin) < 3"
    using that by (simp add: clusterCheck_def clusterCheck_p1_def Let_def len minCluster_def)
  have big: "grid (clusterCheck env now origin st) =
              map (map (\<lambda>b. if b \<in> component (grid st) origin
                             then b\<lparr>b_removing := True\<rparr> else b)) (grid st)
          \<and> score (clusterCheck env now origin st) =
              score st + 10 * int (card (component (grid st) origin))
          \<and> clusterCheck_p1 origin st =
              st\<lparr>grid := map (map (\<lambda>b. if b \<in> component (grid st) origin
                                        then b\<lparr>b_removing := True\<rparr> else b)) (grid st),
                 score := score st + 10 * int (card (component (grid st) origin))\<rparr>"
    if "3 \<le> card (component (grid st) origin)"
    using that
    by (simp add: clusterCheck_grid clusterCheck_score clusterCheck_p1_def Let_def len
          minCluster_def mark)
  from cluster_of_component(1)[OF assms] small big show ?thesis by blast
qed


lemma cluster_of_grid_a:
  "cluster_of grid_a (newBubble 1 0 ''#60a5fa'') =
     [newBubble 1 0 ''#60a5fa'', newBubble 0 0 ''#60a5fa'']"
  by (simp add: cluster_of_worklist neighbors_def deltas_def List.map_filter_def grid_a_def
        newBubble_def key_def)

theorem cluster_pop_threshold_witness:
  "wf_grid (grid (state_of grid_c))
   \<and> newBubble 0 1 ''#60a5fa'' \<in> cells (grid (state_of grid_c))
   \<and> 3 \<le> card (component (grid (state_of grid_c)) (newBubble 0 1 ''#60a5fa''))
   \<and> score (clusterCheck env_a 0 (newBubble 0 1 ''#60a5fa'') (state_of grid_c)) = 30
   \<and> wf_grid (grid (state_of grid_a))
   \<and> newBubble 1 0 ''#60a5fa'' \<in> cells (grid (state_of grid_a))
   \<and> card (component (grid (state_of grid_a)) (newBubble 1 0 ''#60a5fa'')) < 3
   \<and> clusterCheck env_a 0 (newBubble 1 0 ''#60a5fa'') (state_of grid_a) = state_of grid_a"
proof -
  have gc: "grid (state_of grid_c) = grid_c" "score (state_of grid_c) = 0"
    and ga: "grid (state_of grid_a) = grid_a"
    by (simp_all add: state_of_def)
  have hc: "wf_grid (grid (state_of grid_c))"
    "newBubble 0 1 ''#60a5fa'' \<in> cells (grid (state_of grid_c))"
    unfolding gc by (simp_all add: wf_grid_def grid_c_def cells_def newBubble_def)
  have ha: "wf_grid (grid (state_of grid_a))"
    "newBubble 1 0 ''#60a5fa'' \<in> cells (grid (state_of grid_a))"
    unfolding ga by (simp_all add: wf_grid_def grid_a_def cells_def newBubble_def)
  have cc: "card (component (grid (state_of grid_c)) (newBubble 0 1 ''#60a5fa'')) = 3"
    using length_cluster_of[OF hc] by (simp add: gc cluster_of_grid_c)
  have ca: "card (component (grid (state_of grid_a)) (newBubble 1 0 ''#60a5fa'')) = 2"
    using length_cluster_of[OF ha] by (simp add: ga cluster_of_grid_a)
  from cluster_pop_threshold[OF hc, of env_a 0] cc
  have 1: "score (clusterCheck env_a 0 (newBubble 0 1 ''#60a5fa'') (state_of grid_c)) = 30"
    by (simp add: gc)
  from cluster_pop_threshold[OF ha, of env_a 0] ca
  have 2: "clusterCheck env_a 0 (newBubble 1 0 ''#60a5fa'') (state_of grid_a) = state_of grid_a"
    by simp
  from hc ha cc ca 1 2 show ?thesis by simp
qed

section \<open>Placements that go wrong\<close>

text \<open>The grid after a placement, computed on grids alone.\<close>

lemma addBubbleAt_grid:
  "grid (addBubbleAt env now p tx ty st) =
     (let r = slotRow ty; k = slotCol env r tx; g = growTo r (grid st)
      in if find (\<lambda>b. b_c b = k) (g ! nat r) = None
         then let bubble = newBubble r k (p_color p);
                  g1 = g[nat r := g ! nat r @ [bubble]];
                  g2 = (if minCluster \<le> length (cluster_of g1 bubble)
                        then fold (\<lambda>b. markRemoving (key b)) (cluster_of g1 bubble) g1
                        else g1)
              in map (filter (\<lambda>b. \<not> floats (connected_set g2) b)) g2
         else g)"
  by (simp add: addBubbleAt_def Let_def floatingCheck_grid clusterCheck_grid)

lemma slot_48_16: "slotRow 16 = 0" "slotCol env_a 0 48 = 1"
  by (simp_all add: slotRow_def slotCol_def perRow_env_a bubbleRadius_def)

lemma placed_grid_e:
  "(grid_e)[0 := grid_e ! 0 @ [newBubble 0 1 ''#60a5fa'']] = grid_c"
  by (simp add: grid_e_def grid_c_def)

lemma popped_grid_c:
  "fold (\<lambda>b. markRemoving (key b)) (cluster_of grid_c (newBubble 0 1 ''#60a5fa'')) grid_c = grid_c_popped"
  unfolding cluster_of_grid_c
  by (simp add: markRemoving_def grid_c_def grid_c_popped_def newBubble_def key_def)

lemma perRow_env_n: "perRow env_n = 1"
  by (simp add: perRow_def env_n_def bubbleRadius_def)

lemma slot_16_68: "slotRow 68 = 2" "slotCol env_n 2 16 = 0"
  by (simp_all add: slotRow_def slotCol_def perRow_env_n bubbleRadius_def rowHeight_def
        rowHeightFactor_def round_def)

lemma cluster_of_grid_n:
  "cluster_of grid_n_placed (newBubble 2 0 ''#60a5fa'') =
     [newBubble 2 0 ''#60a5fa'', newBubble 1 0 ''#60a5fa'', newBubble 0 0 ''#60a5fa'']"
  by (simp add: cluster_of_worklist neighbors_def deltas_def List.map_filter_def grid_n_placed_def
        newBubble_def key_def)

lemma popped_grid_n:
  "fold (\<lambda>b. markRemoving (key b)) (cluster_of grid_n_placed (newBubble 2 0 ''#60a5fa''))
     grid_n_placed = grid_n_popped"
  unfolding cluster_of_grid_n
  by (simp add: markRemoving_def grid_n_placed_def grid_n_popped_def newBubble_def key_def)

lemma connected_set_grid_n_popped: "connected_set grid_n_popped = {(0, 0), (1, 0), (2, 0)}"
  by (simp add: connected_set_worklist neighbors_def deltas_def List.map_filter_def
        grid_n_popped_def newBubble_def key_def insert_commute)

lemma addBubbleAt_grid_n:
  "grid (addBubbleAt env_n 0 shot_a 16 68 (state_of grid_n)) = grid_n_popped"
proof -
  have g: "grid (state_of grid_n) = grid_n" by (simp add: state_of_def)
  have gr: "growTo 2 grid_n = grid_n" by (simp add: growTo_def grid_n_def)
  have f: "find (\<lambda>b. b_c b = 0) (grid_n ! nat 2) = None"
    by (simp add: grid_n_def)
  have c: "p_color shot_a = ''#60a5fa''" by (simp add: shot_a_def)
  have p: "grid_n[nat 2 := grid_n ! nat 2 @ [newBubble 2 0 ''#60a5fa'']] = grid_n_placed"
    by (simp add: grid_n_def grid_n_placed_def)
  have l: "minCluster \<le> length (cluster_of grid_n_placed (newBubble 2 0 ''#60a5fa''))"
    by (simp add: cluster_of_grid_n minCluster_def)
  have k: "map (filter (\<lambda>b. \<not> floats (connected_set grid_n_popped) b)) grid_n_popped = grid_n_popped"
    unfolding connected_set_grid_n_popped
    by (simp add: grid_n_popped_def floats_def key_def newBubble_def)
  show ?thesis
    unfolding addBubbleAt_grid g slot_16_68 Let_def gr
    by (simp only: f c p l popped_grid_n k if_True) simp
qed

text \<open>
  In the second source file: a blue bubble placed at the ceiling beside the top of the column
  \<open>grid_e\<close>, followed by the removal loop of \<^verbatim>\<open>update\<close>.
\<close>

lemma addBubbleAt_p1_grid_e:
  "map_option grid (addBubbleAt_p1 env_a shot_a 48 16 (state_of grid_e)) = Some grid_c_popped"
proof -
  have g: "grid (state_of grid_e) = grid_e" by (simp add: state_of_def)
  have w: "worldToGrid 16 = 0" by (simp add: worldToGrid_def bubbleRadius_def)
  have gr: "growTo 0 grid_e = grid_e" by (simp add: growTo_def grid_e_def)
  have f: "find (\<lambda>b. b_c b = 1) (grid_e ! 0) = None"
    by (simp add: grid_e_def newBubble_def)
  have c: "p_color shot_a = ''#60a5fa''" by (simp add: shot_a_def)
  have b: "(newBubble 0 1 ''#60a5fa'')\<lparr>b_y := bubbleRadius\<rparr> = newBubble 0 1 ''#60a5fa''"
    by (simp add: newBubble_def)
  have l: "minCluster \<le> length (cluster_of grid_c (newBubble 0 1 ''#60a5fa''))"
    by (simp add: cluster_of_grid_c minCluster_def)
  have k: "map (map (\<lambda>b. if floats (connected_set grid_c_popped) b then b\<lparr>b_removing := True\<rparr> else b))
      grid_c_popped = grid_c_popped"
    unfolding connected_set_grid_c_popped
    by (simp add: grid_c_popped_def floats_def key_def newBubble_def)
  have "grid (floatingCheck_p1 (clusterCheck_p1 (newBubble 0 1 ''#60a5fa'')
          (state_of grid_e\<lparr>grid := grid_c\<rparr>))) = grid_c_popped"
    by (simp add: floatingCheck_p1_def clusterCheck_p1_def Let_def l popped_grid_c k)
  then show ?thesis
    unfolding addBubbleAt_p1_def g w slot_48_16 Let_def gr
    by (simp add: f c b placed_grid_e)
qed

lemma sweep_grid_c_popped: "sweep_p1 grid_c_popped = [[], [], [newBubble 2 0 ''#34d399'']]"
  by (simp add: grid_c_popped_def newBubble_def)

lemma connected_set_swept: "connected_set [[], [], [newBubble 2 0 ''#34d399'']] = {}"
  by (simp add: connected_set_worklist)

text \<open>
  C1 fails on the code. In \<^verbatim>\<open>src/game.js\<close>, on the narrow canvas, a blue bubble is placed
  below two blue bubbles that hang from row 0: the three are popped and stay in the grid with
  their flag set, one of them in row 0 and all of them connected to it. In the second source
  file a blue bubble is placed at the ceiling beside the blue top of a column blue, blue,
  green: the removal loop of \<^verbatim>\<open>update\<close> then takes the three blue bubbles out and leaves the
  green one, which has no connection to row 0, carries no flag and is still in the grid.
\<close>

theorem placement_keeps_popped_bubbles:
  "grid (addBubbleAt env_n 0 shot_a 16 68 (state_of grid_n)) =
     [[(newBubble 0 0 ''#60a5fa'')\<lparr>b_removing := True\<rparr>],
      [(newBubble 1 0 ''#60a5fa'')\<lparr>b_removing := True\<rparr>],
      [(newBubble 2 0 ''#60a5fa'')\<lparr>b_removing := True\<rparr>],
      [], [], [], [], []]
   \<and> connected_set (grid (addBubbleAt env_n 0 shot_a 16 68 (state_of grid_n))) =
       {(0, 0), (1, 0), (2, 0)}
   \<and> map_option (sweep_p1 \<circ> grid) (addBubbleAt_p1 env_a shot_a 48 16 (state_of grid_e)) =
       Some [[], [], [newBubble 2 0 ''#34d399'']]
   \<and> key (newBubble 2 0 ''#34d399'') \<notin> connected_set [[], [], [newBubble 2 0 ''#34d399'']]
   \<and> \<not> b_removing (newBubble 2 0 ''#34d399'')"
proof -
  have "map_option (sweep_p1 \<circ> grid) (addBubbleAt_p1 env_a shot_a 48 16 (state_of grid_e)) =
        map_option sweep_p1 (map_option grid (addBubbleAt_p1 env_a shot_a 48 16 (state_of grid_e)))"
    by (simp add: option.map_comp)
  also have "\<dots> = Some [[], [], [newBubble 2 0 ''#34d399'']]"
    by (simp only: addBubbleAt_p1_grid_e option.map sweep_grid_c_popped)
  finally show ?thesis
    using addBubbleAt_grid_n connected_set_grid_n_popped
    by (simp add: connected_set_swept) (simp add: grid_n_popped_def newBubble_def)
qed

section \<open>A popped bubble is scored again\<close>

text \<open>The score after a placement, computed on grids alone.\<close>

lemma addBubbleAt_score:
  "score (addBubbleAt env now p tx ty st) =
     (let r = slotRow ty; k = slotCol env r tx; g = growTo r (grid st)
      in if find (\<lambda>b. b_c b = k) (g ! nat r) = None
         then let bubble = newBubble r k (p_color p);
                  g1 = g[nat r := g ! nat r @ [bubble]];
                  n = length (cluster_of g1 bubble);
                  g2 = (if minCluster \<le> n
                        then fold (\<lambda>b. markRemoving (key b)) (cluster_of g1 bubble) g1
                        else g1)
              in score st + (if minCluster \<le> n then int n * 10 else 0)
                 + 20 * int (length (filter (floats (connected_set g2)) (concat g2)))
         else score st)"
  by (simp add: addBubbleAt_def Let_def floatingCheck_score clusterCheck_grid clusterCheck_score)

lemma slot_16_100: "slotRow 100 = 3" "slotCol env_n 3 16 = 0"
  by (simp_all add: slotRow_def slotCol_def perRow_env_n bubbleRadius_def rowHeight_def
        rowHeightFactor_def round_def)

lemma cluster_of_grid_n_again:
  "cluster_of grid_n_again (newBubble 3 0 ''#60a5fa'') =
     [newBubble 3 0 ''#60a5fa'', (newBubble 2 0 ''#60a5fa'')\<lparr>b_removing := True\<rparr>,
      (newBubble 1 0 ''#60a5fa'')\<lparr>b_removing := True\<rparr>,
      (newBubble 0 0 ''#60a5fa'')\<lparr>b_removing := True\<rparr>]"
  by (simp add: cluster_of_worklist neighbors_def deltas_def List.map_filter_def grid_n_again_def
        newBubble_def key_def)

lemma popped_grid_n_again:
  "fold (\<lambda>b. markRemoving (key b)) (cluster_of grid_n_again (newBubble 3 0 ''#60a5fa''))
     grid_n_again = grid_n_twice"
  unfolding cluster_of_grid_n_again
  by (simp add: markRemoving_def grid_n_again_def grid_n_twice_def newBubble_def key_def)

lemma connected_set_grid_n_twice: "connected_set grid_n_twice = {(0, 0), (1, 0), (2, 0), (3, 0)}"
  by (simp add: connected_set_worklist neighbors_def deltas_def List.map_filter_def
        grid_n_twice_def newBubble_def key_def insert_commute)


lemma score_grid_n: "score (addBubbleAt env_n 0 shot_a 16 68 (state_of grid_n)) = 30"
proof -
  have g: "grid (state_of grid_n) = grid_n" "score (state_of grid_n) = 0"
    by (simp_all add: state_of_def)
  have gr: "growTo 2 grid_n = grid_n" by (simp add: growTo_def grid_n_def)
  have f: "find (\<lambda>b. b_c b = 0) (grid_n ! nat 2) = None"
    by (simp add: grid_n_def)
  have c: "p_color shot_a = ''#60a5fa''" by (simp add: shot_a_def)
  have p: "grid_n[nat 2 := grid_n ! nat 2 @ [newBubble 2 0 ''#60a5fa'']] = grid_n_placed"
    by (simp add: grid_n_def grid_n_placed_def)
  have l: "length (cluster_of grid_n_placed (newBubble 2 0 ''#60a5fa'')) = 3"
    by (simp add: cluster_of_grid_n)
  have k: "filter (floats (connected_set grid_n_popped)) (concat grid_n_popped) = []"
    by (simp add: connected_set_grid_n_popped)
       (simp add: grid_n_popped_def floats_def key_def newBubble_def)
  have m: "minCluster \<le> 3" by (simp add: minCluster_def)
  show ?thesis
    unfolding addBubbleAt_score g slot_16_68 Let_def gr
    by (simp only: f c p l m popped_grid_n k if_True) simp
qed

lemma addBubbleAt_grid_n_popped:
  assumes "grid st = grid_n_popped"
  shows "grid (addBubbleAt env_n now shot_a 16 100 st) = grid_n_twice"
    and "score (addBubbleAt env_n now shot_a 16 100 st) = score st + 40"
proof -
  have gr: "growTo 3 grid_n_popped = grid_n_popped" by (simp add: growTo_def grid_n_popped_def)
  have f: "find (\<lambda>b. b_c b = 0) (grid_n_popped ! nat 3) = None"
    by (simp add: grid_n_popped_def)
  have c: "p_color shot_a = ''#60a5fa''" by (simp add: shot_a_def)
  have p: "grid_n_popped[nat 3 := grid_n_popped ! nat 3 @ [newBubble 3 0 ''#60a5fa'']] = grid_n_again"
    by (simp add: grid_n_popped_def grid_n_again_def)
  have l: "length (cluster_of grid_n_again (newBubble 3 0 ''#60a5fa'')) = 4"
    by (simp add: cluster_of_grid_n_again)
  have m: "minCluster \<le> 4" by (simp add: minCluster_def)
  have k: "map (filter (\<lambda>b. \<not> floats (connected_set grid_n_twice) b)) grid_n_twice = grid_n_twice"
    unfolding connected_set_grid_n_twice
    by (simp add: grid_n_twice_def floats_def key_def newBubble_def)
  have k': "filter (floats (connected_set grid_n_twice)) (concat grid_n_twice) = []"
    by (simp add: connected_set_grid_n_twice)
       (simp add: grid_n_twice_def floats_def key_def newBubble_def)
  show "grid (addBubbleAt env_n now shot_a 16 100 st) = grid_n_twice"
    unfolding addBubbleAt_grid assms slot_16_100 Let_def gr
    by (simp only: f c p l m popped_grid_n_again k if_True) simp
  show "score (addBubbleAt env_n now shot_a 16 100 st) = score st + 40"
    unfolding addBubbleAt_score assms slot_16_100 Let_def gr
    by (simp only: f c p l m popped_grid_n_again k' if_True) simp
qed

text \<open>
  C8 fails on the code. The floating check tests \<^verbatim>\<open>!b.removing\<close> before it marks and scores a
  bubble, and run twice it changes nothing the second time; the pop check has no such test.
  In \<^verbatim>\<open>src/game.js\<close>, on the narrow canvas, a blue bubble placed below two blue bubbles pops
  the three for 30 points, and they stay in the grid with their flag set. A second blue
  bubble placed below them is the origin of a traversal that collects the three flagged
  bubbles again: the cluster has four members, 40 points are added, and each of the three
  has been scored twice for its removal.
\<close>

theorem popped_bubbles_scored_again:
  "score (addBubbleAt env_n 0 shot_a 16 68 (state_of grid_n)) = 30
   \<and> cluster_of
        [[(newBubble 0 0 ''#60a5fa'')\<lparr>b_removing := True\<rparr>],
         [(newBubble 1 0 ''#60a5fa'')\<lparr>b_removing := True\<rparr>],
         [(newBubble 2 0 ''#60a5fa'')\<lparr>b_removing := True\<rparr>],
         [newBubble 3 0 ''#60a5fa''], [], [], [], []]
        (newBubble 3 0 ''#60a5fa'') =
       [newBubble 3 0 ''#60a5fa'',
        (newBubble 2 0 ''#60a5fa'')\<lparr>b_removing := True\<rparr>,
        (newBubble 1 0 ''#60a5fa'')\<lparr>b_removing := True\<rparr>,
        (newBubble 0 0 ''#60a5fa'')\<lparr>b_removing := True\<rparr>]
   \<and> score (addBubbleAt env_n 900 shot_a 16 100
               (addBubbleAt env_n 0 shot_a 16 68 (state_of grid_n))) = 70
   \<and> grid (addBubbleAt env_n 900 shot_a 16 100
              (addBubbleAt env_n 0 shot_a 16 68 (state_of grid_n))) =
       [[(newBubble 0 0 ''#60a5fa'')\<lparr>b_removing := True\<rparr>],
        [(newBubble 1 0 ''#60a5fa'')\<lparr>b_removing := True\<rparr>],
        [(newBubble 2 0 ''#60a5fa'')\<lparr>b_removing := True\<rparr>],
        [(newBubble 3 0 ''#60a5fa'')\<lparr>b_removing := True\<rparr>], [], [], [], []]"
  using score_grid_n addBubbleAt_grid_n_popped[OF addBubbleAt_grid_n, of 900]
    cluster_of_grid_n_again
  by (simp add: grid_n_again_def grid_n_twice_def)

section \<open>The bounce limit\<close>

lemma moveProjectile_shot_b: "moveProjectile env_n (1 / 25) shot_b = shot_b_moved"
  by (simp add: moveProjectile_def shot_b_def shot_b_moved_def Let_def bubbleRadius_def
        maxBounce_def friction_def)

lemma sqrt_576: "sqrt 576 = 24"
  by (rule real_sqrt_unique) simp_all

lemma sqrt_1040: "63 / 2 \<le> sqrt 1040"
  by (rule real_le_rsqrt) (simp add: power2_eq_square)

lemma apart_shot_b: "\<not> collides shot_b (newBubble 0 0 ''#f472b6'')"
  using sqrt_1040
  by (simp add: collides_def hypot_def shot_b_def newBubble_def bubbleRadius_def)

lemma collides_shot_b: "collides shot_b_moved (newBubble 0 0 ''#f472b6'')"
  by (simp add: collides_def hypot_def shot_b_moved_def newBubble_def bubbleRadius_def sqrt_576)

lemma target_shot_b:
  "b_x (newBubble 0 0 ''#f472b6'') +
     cos (atan2 (p_y shot_b_moved - b_y (newBubble 0 0 ''#f472b6''))
                (p_x shot_b_moved - b_x (newBubble 0 0 ''#f472b6''))) * bubbleRadius * 2 = 16"
  "b_y (newBubble 0 0 ''#f472b6'') +
     sin (atan2 (p_y shot_b_moved - b_y (newBubble 0 0 ''#f472b6''))
                (p_x shot_b_moved - b_x (newBubble 0 0 ''#f472b6''))) * bubbleRadius * 2 = 48"
  by (simp_all add: atan2_def shot_b_moved_def newBubble_def bubbleRadius_def)

lemma slot_16_48: "slotRow 48 = 1" "slotCol env_n 1 16 = 0"
  by (simp_all add: slotRow_def slotCol_def perRow_env_n bubbleRadius_def rowHeight_def
        rowHeightFactor_def round_def)

lemma addBubbleAt_grid_f:
  assumes "grid st = grid_f" "p_color p = ''#60a5fa''"
  shows "grid (addBubbleAt env_n now p 16 48 st) = grid_f_placed"
proof -
  have gr: "growTo 1 grid_f = grid_f"
    by (simp add: growTo_def grid_f_def)
  have g1: "grid_f[nat 1 := grid_f ! nat 1 @ [newBubble 1 0 ''#60a5fa'']] = grid_f_placed"
    by (simp add: grid_f_def grid_f_placed_def)
  have f: "find (\<lambda>b. b_c b = 0) (grid_f ! nat 1) = None"
    by (simp add: grid_f_def)
  have cl: "cluster_of grid_f_placed (newBubble 1 0 ''#60a5fa'') = [newBubble 1 0 ''#60a5fa'']"
    by (simp add: cluster_of_worklist neighbors_def deltas_def List.map_filter_def grid_f_placed_def
          newBubble_def key_def)
  have l: "\<not> minCluster \<le> length (cluster_of grid_f_placed (newBubble 1 0 ''#60a5fa''))"
    by (simp add: cl minCluster_def)
  have cn: "connected_set grid_f_placed = {(0, 0), (1, 0)}"
    by (simp add: connected_set_worklist neighbors_def deltas_def List.map_filter_def grid_f_placed_def
          newBubble_def key_def insert_commute)
  have k: "map (filter (\<lambda>b. \<not> floats (connected_set grid_f_placed) b)) grid_f_placed = grid_f_placed"
    unfolding cn by (simp add: grid_f_placed_def floats_def key_def newBubble_def)
  show ?thesis
    unfolding addBubbleAt_grid assms slot_16_48 Let_def gr
    by (simp only: f g1 l k if_False) simp
qed

text \<open>
  C4 fails on the code. The projectile has bounced 8 times, is active and touches no bubble;
  in this frame it crosses the left wall, so its counter becomes 9, above the maximum of 8,
  and it is deactivated. The frame goes on to the collision test all the same: the
  projectile, clamped to the wall, touches the pink bubble of row 0, and a blue bubble is
  placed in row 1.
\<close>

theorem bounce_limit_still_places:
  "p_active shot_b
   \<and> p_bounces shot_b \<le> maxBounce
   \<and> \<not> list_ex (collides shot_b) (concat (grid (state_of grid_f)))
   \<and> maxBounce < p_bounces (moveProjectile env_n (1 / 25) shot_b)
   \<and> \<not> p_active (moveProjectile env_n (1 / 25) shot_b)
   \<and> grid (state_of grid_f) = [[newBubble 0 0 ''#f472b6''], [], [], [], [], [], [], []]
   \<and> grid (snd (stepProjectile env_n 0 (1 / 25) shot_b (state_of grid_f))) =
       [[newBubble 0 0 ''#f472b6''], [newBubble 1 0 ''#60a5fa''], [], [], [], [], [], []]"
proof -
  let ?st2 = "leaveTrail 0 (1 / 25) shot_b (state_of grid_f)"
  have g: "grid ?st2 = grid_f" by (simp add: grid_leaveTrail state_of_def)
  have a: "p_active shot_b" "p_bounces shot_b \<le> maxBounce"
    by (simp_all add: shot_b_def maxBounce_def)
  have n: "\<not> list_ex (collides shot_b) (concat (grid (state_of grid_f)))"
    by (simp add: state_of_def grid_f_def apart_shot_b)
  have m: "maxBounce < p_bounces shot_b_moved" "\<not> p_active shot_b_moved"
    "\<not> p_y shot_b_moved < bubbleRadius" "p_color shot_b_moved = ''#60a5fa''"
    by (simp_all add: shot_b_moved_def maxBounce_def bubbleRadius_def)
  have f: "find (collides shot_b_moved) (concat grid_f) = Some (newBubble 0 0 ''#f472b6'')"
    by (simp add: grid_f_def collides_shot_b)
  have "grid (snd (stepProjectile env_n 0 (1 / 25) shot_b (state_of grid_f))) =
        grid (addBubbleAt env_n 0 (shot_b_moved\<lparr>p_active := False\<rparr>) 16 48 ?st2)"
    unfolding stepProjectile_def moveProjectile_shot_b Let_def
    by (simp only: a m g f if_False if_True not_True_eq_False not_False_eq_True option.case
          target_shot_b split_conv snd_conv split: if_split)
  also have "\<dots> = grid_f_placed"
    by (rule addBubbleAt_grid_f) (simp_all add: g m)
  finally show ?thesis
    using a m n by (simp add: moveProjectile_shot_b grid_f_placed_def state_of_def grid_f_def)
qed

section \<open>The grid invariant is kept\<close>

text \<open>
  Every operation of a session keeps the grid invariant, and \<^verbatim>\<open>startGame\<close> establishes it: the
  grids that the theorems above assume are the grids a session has. In \<^verbatim>\<open>addBubbleAt\<close> the
  grid handed to the pop check satisfies it too, and holds the new bubble.
\<close>

lemma wf_rows_map:
  assumes "\<And>b. b_row (f b) = b_row b" "\<And>b. b_c (f b) = b_c b"
  shows "wf_rows k (map (map f) g) = wf_rows k g"
  by (induction g arbitrary: k) (simp_all add: assms comp_def)

lemma wf_rows_filter: "wf_rows k g \<Longrightarrow> wf_rows k (map (filter P) g)"
  by (induction g arbitrary: k) (simp_all add: distinct_map_filter)

lemma wf_grid_markRemoving: "wf_grid (markRemoving k g) = wf_grid g"
  unfolding wf_grid_def markRemoving_def by (rule wf_rows_map) simp_all

lemma wf_grid_fold_markRemoving:
  "wf_grid (fold (\<lambda>b. markRemoving (key b)) cl g) = wf_grid g"
  by (induction cl arbitrary: g) (simp_all add: wf_grid_markRemoving)

lemma wf_grid_clusterCheck:
  "wf_grid (grid (clusterCheck env now origin st)) = wf_grid (grid st)"
  by (simp add: clusterCheck_grid wf_grid_fold_markRemoving)

lemma wf_grid_floatingCheck:
  "wf_grid (grid st) \<Longrightarrow> wf_grid (grid (floatingCheck env now st))"
  by (simp add: floatingCheck_grid wf_grid_def wf_rows_filter)

lemma wf_grid_growTo: "wf_grid g \<Longrightarrow> wf_grid (growTo r g)"
  by (auto simp: wf_grid_iff growTo_def nth_append)

lemma wf_grid_push:
  assumes wf: "wf_grid g" and r: "0 \<le> r" "nat r < length g"
    and free: "find (\<lambda>b. b_c b = k) (g ! nat r) = None"
  shows "wf_grid (g[nat r := g ! nat r @ [newBubble r k col]])"
proof -
  have "k \<notin> b_c ` set (g ! nat r)" using free by (auto simp: find_None_iff)
  moreover have "b_row (newBubble r k col) = r" "b_c (newBubble r k col) = k"
    by (simp_all add: newBubble_def)
  ultimately show ?thesis
    using wf r by (auto simp: wf_grid_iff nth_list_update)
qed

lemma placed_in_cells:
  assumes "nat r < length g"
  shows "newBubble r k col \<in> cells (g[nat r := g ! nat r @ [newBubble r k col]])"
  unfolding cells_iff using assms by (intro exI[of _ "nat r"]) simp

lemma slotRow_nonneg: "0 \<le> slotRow ty"
  by (simp add: slotRow_def)

lemma wf_grid_addBubbleAt:
  assumes "wf_grid (grid st)"
  shows "wf_grid (grid (addBubbleAt env now p tx ty st))"
proof -
  let ?r = "slotRow ty"
  let ?g = "growTo ?r (grid st)"
  have g: "wf_grid ?g" using assms by (rule wf_grid_growTo)
  have len: "nat ?r < length ?g"
    using slotRow_nonneg[of ty] by (simp add: growTo_def)
  show ?thesis
    using g wf_grid_push[OF g slotRow_nonneg len]
    by (simp add: addBubbleAt_def Let_def wf_grid_floatingCheck wf_grid_clusterCheck)
qed

lemma wf_rows_renumber:
  "(\<And>r. r \<in> set g \<Longrightarrow> distinct (map b_c r)) \<Longrightarrow> wf_rows k (renumber k g)"
  by (induction g arbitrary: k) (simp_all add: comp_def)

lemma wf_grid_pushRow:
  assumes "wf_grid (grid st)"
  shows "wf_grid (grid (pushRow env st))"
proof -
  have d: "distinct (map b_c r)" if "r \<in> set (grid st)" for r
    using assms that by (auto simp: wf_grid_iff in_set_conv_nth)
  have n: "distinct (map b_c (map (\<lambda>k. \<lparr>b_row = 0, b_c = int k,
                              b_x = bubbleRadius + real k * bubbleRadius * 2,
                              b_y = bubbleRadius,
                              b_color = pickColor env (draws st + k),
                              b_removing = False\<rparr>) [0 ..< nat (perRow env)]))"
    by (simp add: comp_def distinct_map inj_on_def)
  show ?thesis
    unfolding pushRow_def Let_def wf_grid_def
    using d n by (auto intro!: wf_rows_renumber simp: comp_def)
qed

lemma grid_stepProjectile:
  "wf_grid (grid st) \<Longrightarrow> wf_grid (grid (snd (stepProjectile env now dt p st)))"
  by (simp add: stepProjectile_def Let_def split_beta grid_leaveTrail wf_grid_addBubbleAt
        split: option.split)

lemma wf_grid_moveProjectiles:
  "wf_grid (grid st) \<Longrightarrow> wf_grid (grid (snd (moveProjectiles env now dt ps st)))"
  by (induction ps arbitrary: st) (simp_all add: split_beta Let_def grid_stepProjectile)

lemma wf_grid_update:
  assumes "wf_grid (grid st)"
  shows "wf_grid (grid (update env now dt st))"
proof -
  let ?st0 = "st\<lparr>shooter := (shooter st)\<lparr>s_angle := s_angle (shooter st) +
      (s_targetAngle (shooter st) - s_angle (shooter st)) * aimDamping\<rparr>\<rparr>"
  have "wf_grid (grid (snd (moveProjectiles env now dt (projectiles ?st0) ?st0)))"
    using assms by (intro wf_grid_moveProjectiles) simp
  then have a: "wf_grid (grid (advanceEffects env now dt (advanceProjectiles env now dt ?st0)))"
    by (simp add: advanceEffects_fields advanceProjectiles_def split_beta Let_def)
  have b: "wf_grid (grid (rowPressure env dt s))" if "wf_grid (grid s)" for s
    using that wf_grid_pushRow[of "s\<lparr>spawnTimer := spawnTimer s + dt * 1000\<rparr>" env]
    by (simp add: rowPressure_def Let_def)
  have c: "grid (winLose env s) = grid s" for s
    by (simp add: winLose_def Let_def endGame_fields)
  from b[OF a] show ?thesis
    by (simp add: update_def beforeChecks_def Let_def c)
qed

lemma wf_rows_initRows:
  "wf_rows k (fst (initRows env [k ..< k + n] d))"
proof (induction n arbitrary: k d)
  case 0
  show ?case by simp
next
  case (Suc n)
  have u: "[k ..< k + Suc n] = k # [Suc k ..< Suc k + n]"
    by (simp add: upt_conv_Cons)
  have "distinct (map b_c (initRow env k d))" "\<forall>b \<in> set (initRow env k d). b_row b = int k"
    by (simp_all add: initRow_def comp_def newBubble_def distinct_map inj_on_def)
  then show ?case
    unfolding u using Suc[of "Suc k"] by (simp add: split_beta Let_def)
qed

lemma wf_grid_startGame: "wf_grid (grid (startGame env st))"
  using wf_rows_initRows[of 0 env rowCount]
  by (simp add: startGame_def initGrid_def split_beta Let_def wf_grid_def)

lemma wf_grid_handle:
  "wf_grid (grid st) \<Longrightarrow> wf_grid (grid (handle env e st))"
proof (cases e)
  case (Frame now ts)
  assume "wf_grid (grid st)"
  then have "wf_grid (grid (update env now dt (s\<lparr>lastTime := ts\<rparr>)))" if "grid s = grid st" for dt s
    using that by (intro wf_grid_update) simp
  then show ?thesis using Frame \<open>wf_grid (grid st)\<close> by (simp add: gameLoop_def Let_def)
next
  case StartGame
  then show ?thesis by (simp add: wf_grid_startGame)
qed (simp_all add: aimAt_def fire_def newProjectile_def Let_def split_beta)

lemma wf_grid_run:
  "wf_grid (grid st) \<Longrightarrow> wf_grid (grid (run env evs st))"
  unfolding run_def by (induction evs arbitrary: st) (simp_all add: wf_grid_handle)

section \<open>Flagged bubbles stay in the grid\<close>

lemma flagged_Cons: "flagged (r # g) = length (filter b_removing r) + flagged g"
  by (simp add: flagged_def)

lemma length_filter_map_le:
  assumes "\<And>x. P x \<Longrightarrow> P (f x)"
  shows "length (filter P xs) \<le> length (filter P (map f xs))"
  by (induction xs) (auto simp: assms)

lemma flagged_map_le:
  assumes "\<And>x. b_removing x \<Longrightarrow> b_removing (f x)"
  shows "flagged g \<le> flagged (map (map f) g)"
proof (induction g)
  case Nil
  show ?case by (simp add: flagged_def)
next
  case (Cons r g)
  have "length (filter b_removing r) \<le> length (filter b_removing (map f r))"
    by (rule length_filter_map_le) (rule assms)
  with Cons show ?case by (simp add: flagged_Cons)
qed

lemma flagged_map_eq:
  assumes "\<And>x. b_removing (f x) = b_removing x"
  shows "flagged (map (map f) g) = flagged g"
  by (induction g) (simp_all add: flagged_Cons flagged_def filter_map comp_def assms)

lemma flagged_markRemoving: "flagged g \<le> flagged (markRemoving k g)"
  unfolding markRemoving_def by (rule flagged_map_le) simp

lemma flagged_fold_markRemoving: "flagged g \<le> flagged (fold (\<lambda>b. markRemoving (key b)) cl g)"
proof (induction cl arbitrary: g)
  case Nil
  show ?case by simp
next
  case (Cons b cl)
  have "flagged g \<le> flagged (markRemoving (key b) g)" by (rule flagged_markRemoving)
  also have "\<dots> \<le> flagged (fold (\<lambda>b. markRemoving (key b)) cl (markRemoving (key b) g))"
    by (rule Cons)
  finally show ?case by simp
qed

lemma flagged_clusterCheck: "flagged (grid st) \<le> flagged (grid (clusterCheck env now origin st))"
  by (simp add: clusterCheck_grid flagged_fold_markRemoving)

lemma flagged_filter:
  assumes "\<And>x. b_removing x \<Longrightarrow> Q x"
  shows "flagged (map (filter Q) g) = flagged g"
proof -
  have "filter b_removing (filter Q r) = filter b_removing r" for r
    by (induction r) (auto simp: assms)
  then show ?thesis by (induction g) (simp_all add: flagged_Cons flagged_def)
qed

lemma flagged_floatingCheck: "flagged (grid (floatingCheck env now st)) = flagged (grid st)"
  unfolding floatingCheck_grid by (rule flagged_filter) (simp add: floats_def)

lemma flagged_growTo: "flagged (growTo r g) = flagged g"
  by (simp add: growTo_def flagged_def)

lemma flagged_push:
  "i < length g \<Longrightarrow> \<not> b_removing b \<Longrightarrow> flagged (g[i := g ! i @ [b]]) = flagged g"
proof (induction g arbitrary: i)
  case Nil
  then show ?case by simp
next
  case (Cons r g)
  then show ?case by (cases i) (simp_all add: flagged_Cons)
qed

lemma flagged_addBubbleAt: "flagged (grid st) \<le> flagged (grid (addBubbleAt env now p tx ty st))"
proof -
  let ?r = "slotRow ty"
  let ?g = "growTo ?r (grid st)"
  let ?b = "newBubble ?r (slotCol env ?r tx) (p_color p)"
  have len: "nat ?r < length ?g"
    using slotRow_nonneg[of ty] by (simp add: growTo_def)
  have "flagged (?g[nat ?r := ?g ! nat ?r @ [?b]]) = flagged (grid st)"
    using flagged_push[OF len, of ?b] by (simp add: flagged_growTo newBubble_def)
  moreover have "flagged (grid s) \<le> flagged (grid (floatingCheck env now (clusterCheck env now ?b s)))" for s
    by (simp add: flagged_floatingCheck flagged_clusterCheck)
  ultimately show ?thesis
    using flagged_clusterCheck[of "st\<lparr>grid := ?g[nat ?r := ?g ! nat ?r @ [?b]]\<rparr>" env now ?b]
    by (simp add: addBubbleAt_def Let_def flagged_growTo flagged_floatingCheck)
qed

lemma flagged_stepProjectile:
  "flagged (grid st) \<le> flagged (grid (snd (stepProjectile env now dt p st)))"
proof -
  have a: "flagged (grid st) \<le> flagged (grid (addBubbleAt env now q tx ty (leaveTrail now dt p st)))"
    for q tx ty
    using flagged_addBubbleAt[of "leaveTrail now dt p st" env now q tx ty]
    by (simp add: grid_leaveTrail)
  show ?thesis
    by (simp add: stepProjectile_def Let_def split_beta grid_leaveTrail a split: option.split)
qed

lemma flagged_moveProjectiles:
  "flagged (grid st) \<le> flagged (grid (snd (moveProjectiles env now dt ps st)))"
proof (induction ps arbitrary: st)
  case Nil
  show ?case by simp
next
  case (Cons p ps)
  have "flagged (grid st) \<le> flagged (grid (snd (stepProjectile env now dt p st)))"
    by (rule flagged_stepProjectile)
  also have "\<dots> \<le> flagged (grid (snd (moveProjectiles env now dt ps
      (snd (stepProjectile env now dt p st)))))"
    by (rule Cons.IH)
  finally show ?case by (simp add: split_beta Let_def)
qed

lemma flagged_renumber: "flagged (renumber k g) = flagged g"
  by (induction g arbitrary: k) (simp_all add: flagged_Cons flagged_def filter_map comp_def)

lemma flagged_pushRow: "flagged (grid (pushRow env st)) = flagged (grid st)"
proof -
  have "flagged (map (map (\<lambda>b. b\<lparr>b_y := b_y b + rowHeight\<rparr>)) (grid st)) = flagged (grid st)"
    by (rule flagged_map_eq) simp
  then show ?thesis
    by (simp add: pushRow_def Let_def flagged_renumber flagged_Cons filter_map comp_def)
qed

lemma flagged_update: "flagged (grid st) \<le> flagged (grid (update env now dt st))"
proof -
  let ?st0 = "st\<lparr>shooter := (shooter st)\<lparr>s_angle := s_angle (shooter st) +
      (s_targetAngle (shooter st) - s_angle (shooter st)) * aimDamping\<rparr>\<rparr>"
  have "flagged (grid ?st0) \<le> flagged (grid (snd (moveProjectiles env now dt (projectiles ?st0) ?st0)))"
    by (rule flagged_moveProjectiles)
  then have a: "flagged (grid st) \<le>
      flagged (grid (advanceEffects env now dt (advanceProjectiles env now dt ?st0)))"
    by (simp add: advanceEffects_fields advanceProjectiles_def split_beta Let_def)
  have b: "flagged (grid (rowPressure env dt s)) = flagged (grid s)" for s
    using flagged_pushRow[of env "s\<lparr>spawnTimer := spawnTimer s + dt * 1000\<rparr>"]
    by (simp add: rowPressure_def Let_def)
  have c: "grid (winLose env s) = grid s" for s
    by (simp add: winLose_def Let_def endGame_fields)
  from a show ?thesis
    by (simp add: update_def beforeChecks_def Let_def c b)
qed

lemma flagged_handle:
  "e \<noteq> StartGame \<Longrightarrow> flagged (grid st) \<le> flagged (grid (handle env e st))"
proof (cases e)
  case (Frame now ts)
  have "flagged (grid st) \<le> flagged (grid (update env now dt (s\<lparr>lastTime := ts\<rparr>)))"
    if "grid s = grid st" for dt s
    using flagged_update[of "s\<lparr>lastTime := ts\<rparr>" env now dt] that by simp
  then show ?thesis using Frame by (simp add: gameLoop_def Let_def)
qed (simp_all add: aimAt_def fire_def newProjectile_def Let_def split_beta)

lemma flagged_run:
  "StartGame \<notin> set evs \<Longrightarrow> flagged (grid st) \<le> flagged (grid (run env evs st))"
proof (induction evs arbitrary: st)
  case Nil
  show ?case by (simp add: run_def)
next
  case (Cons e evs)
  then have "flagged (grid st) \<le> flagged (grid (handle env e st))"
    by (auto intro: flagged_handle)
  also have "\<dots> \<le> flagged (grid (run env evs (handle env e st)))"
    using Cons by simp
  finally show ?case by (simp add: run_def)
qed

text \<open>
  C9. In \<^verbatim>\<open>src/game.js\<close> a cluster pop changes nothing in the grid but \<^verbatim>\<open>removing\<close> flags:
  the rows hold the same bubbles in the same order, so every row keeps its length. The
  floating check, by contrast, takes every bubble that is neither connected nor flagged out
  of its row, and keeps every flagged one. After a pop, \<^verbatim>\<open>neighbors\<close> finds the same cells as
  before and the win test on the rows gives the same answer. Nothing takes a flagged bubble
  out later either: through any sequence of frames and pointer events without a start of a
  new game, the number of flagged bubbles in the grid never goes down.
\<close>

theorem pop_keeps_cells:
  "map (map (\<lambda>b. b\<lparr>b_removing := False\<rparr>)) (grid (clusterCheck env now origin st)) =
     map (map (\<lambda>b. b\<lparr>b_removing := False\<rparr>)) (grid st)
   \<and> map length (grid (clusterCheck env now origin st)) = map length (grid st)
   \<and> grid (floatingCheck env now st) =
       map (filter (\<lambda>b. key b \<in> connected_set (grid st) \<or> b_removing b)) (grid st)
   \<and> (\<forall>b \<in> cells (grid st). b_removing b \<longrightarrow> b \<in> cells (grid (floatingCheck env now st)))
   \<and> map key (neighbors (grid (clusterCheck env now origin st)) b) =
       map key (neighbors (grid st) b)
   \<and> (list_all (\<lambda>r. length r = 0) (grid (clusterCheck env now origin st)) \<longleftrightarrow>
       list_all (\<lambda>r. length r = 0) (grid st))
   \<and> (StartGame \<notin> set evs \<longrightarrow> flagged (grid st) \<le> flagged (grid (run env evs st)))"
proof -
  note sh = clusterCheck_shape[of env now origin st]
  have len: "map length (grid (clusterCheck env now origin st)) = map length (grid st)"
    using sh by (rule shape_lengths)
  have "list_all (\<lambda>r. length r = 0) g \<longleftrightarrow> list_all (\<lambda>n. n = 0) (map length g)" for g :: grid
    by (simp add: list_all_iff)
  with len have win: "list_all (\<lambda>r. length r = 0) (grid (clusterCheck env now origin st)) \<longleftrightarrow>
       list_all (\<lambda>r. length r = 0) (grid st)"
    by metis
  have fl: "grid (floatingCheck env now st) =
       map (filter (\<lambda>b. key b \<in> connected_set (grid st) \<or> b_removing b)) (grid st)"
    by (simp add: floatingCheck_grid floats_def)
  from sh len fl floatingCheck_keeps_marked clusterCheck_neighbors win flagged_run show ?thesis
    by blast
qed

theorem pop_keeps_cells_witness:
  "(newBubble 0 0 ''#60a5fa'')\<lparr>b_removing := True\<rparr>
      \<in> cells (grid (clusterCheck env_a 0 (newBubble 0 1 ''#60a5fa'') (state_of grid_c)))
   \<and> b_removing ((newBubble 0 0 ''#60a5fa'')\<lparr>b_removing := True\<rparr>)
   \<and> (newBubble 0 0 ''#60a5fa'')\<lparr>b_removing := True\<rparr>
      \<in> cells (grid (floatingCheck env_a 0
            (clusterCheck env_a 0 (newBubble 0 1 ''#60a5fa'') (state_of grid_c))))
   \<and> StartGame \<notin> set [Frame 16 16, Click 20, Frame 32 32]
   \<and> 3 \<le> flagged (grid (run env_a [Frame 16 16, Click 20, Frame 32 32]
            (clusterCheck env_a 0 (newBubble 0 1 ''#60a5fa'') (state_of grid_c))))"
proof -
  let ?st = "clusterCheck env_a 0 (newBubble 0 1 ''#60a5fa'') (state_of grid_c)"
  have c: "(newBubble 0 0 ''#60a5fa'')\<lparr>b_removing := True\<rparr> \<in> cells (grid ?st)"
    by (simp add: clusterCheck_grid_c grid_c_popped_def cells_def)
  have f: "flagged (grid ?st) = 3"
    unfolding clusterCheck_grid_c by (simp add: grid_c_popped_def flagged_def newBubble_def)
  have n: "StartGame \<notin> set [Frame 16 16, Click 20, Frame 32 32]" by simp
  note t = pop_keeps_cells[of env_a 0 "newBubble 0 1 ''#60a5fa''" ?st
      "newBubble 0 0 ''#60a5fa''" "[Frame 16 16, Click 20, Frame 32 32]"]
  from t have "\<forall>b \<in> cells (grid ?st). b_removing b \<longrightarrow> b \<in> cells (grid (floatingCheck env_a 0 ?st))"
    by (elim conjE)
  moreover from t n have "flagged (grid ?st) \<le>
      flagged (grid (run env_a [Frame 16 16, Click 20, Frame 32 32] ?st))"
    by (elim conjE) simp
  ultimately show ?thesis using c f n by simp
qed

end
